theory Spec2Isabelle
  imports Main "HOL-Library.Word" "HOL-Library.Char_ord" "HOL-Library.Sublist"
begin

section \<open>The lexer of fastd's configuration files (src/lex.c)\<close>

text \<open>
  The development follows \<^verbatim>\<open>src/lex.c\<close> function by function. Bytes are
  \<^typ>\<open>char\<close> (eight bits), C strings are \<^typ>\<open>string\<close>. The \<^verbatim>\<open>size_t\<close> indices
  of the lexer are natural numbers: every index the code computes is bounded by
  the size of the buffer, so no arithmetic on them wraps. Line and column
  numbers are integers without a bound.
\<close>

subsection \<open>Bytes and character classes\<close>

definition NUL :: char where "NUL = CHR 0x00"
definition NEWLINE :: char where "NEWLINE = CHR 0x0A"
definition DQUOTE :: char where "DQUOTE = CHR 0x22"
definition BACKSLASH :: char where "BACKSLASH = CHR 0x5C"

text \<open>\<^verbatim>\<open>cur >= '0' && cur <= '9'\<close>\<close>

definition is_digit :: "char \<Rightarrow> bool" where
  "is_digit c \<longleftrightarrow> CHR ''0'' \<le> c \<and> c \<le> CHR ''9''"

text \<open>\<^verbatim>\<open>cur >= 'a' && cur <= 'z'\<close>\<close>

definition is_lower :: "char \<Rightarrow> bool" where
  "is_lower c \<longleftrightarrow> CHR ''a'' \<le> c \<and> c \<le> CHR ''z''"

subsection \<open>The input stream\<close>

text \<open>
  A \<^verbatim>\<open>FILE *\<close> opened for reading: the bytes it will still deliver
  (\<open>pending\<close>), whether the stream ends in a read error rather than in
  end-of-file (\<open>fails\<close>), and the error indicator that \<^verbatim>\<open>ferror\<close> reads.
\<close>

record FILE =
  pending :: string
  fails :: bool
  ferror :: bool

text \<open>
  \<^verbatim>\<open>fread(ptr, 1, n, file)\<close>: returns \<open>n\<close> bytes when the stream has them; when it
  reaches the end of the stream first it returns what is left, and the error
  indicator is set if the stream ends in an error.
\<close>

definition fread :: "nat \<Rightarrow> FILE \<Rightarrow> string \<times> FILE" where
  "fread n f =
     (if n \<le> length (pending f)
      then (take n (pending f), f\<lparr>pending := drop n (pending f)\<rparr>)
      else (pending f, f\<lparr>pending := [], ferror := (ferror f \<or> fails f)\<rparr>))"

subsection \<open>The lexer state\<close>

text \<open>\<^verbatim>\<open>sizeof(lex->buffer)\<close>\<close>

definition sizeof_buffer :: nat where "sizeof_buffer = 1024"

text \<open>\<^verbatim>\<open>struct fastd_lex\<close>, the type \<^verbatim>\<open>fastd_lex_t\<close>; the fields \<^verbatim>\<open>file\<close> and \<^verbatim>\<open>end\<close> are called \<open>infile\<close> and \<open>end_pos\<close> here.\<close>

record fastd_lex_t =
  infile :: FILE
  needspace :: bool
  start :: nat
  end_pos :: nat
  tok_len :: nat
  buffer :: string

text \<open>\<^verbatim>\<open>YYLTYPE\<close>, the location span that the parser passes in.\<close>

record yylloc =
  first_line :: int
  first_column :: int
  last_line :: int
  last_column :: int

type_synonym lexst = "yylloc \<times> fastd_lex_t"

subsection \<open>Buffer handling\<close>

text \<open>
  \<^verbatim>\<open>advance\<close>: move the unread window to the front of the buffer, then read as
  much as fits behind it. Bytes behind the new end keep their old contents.
\<close>

definition compact :: "fastd_lex_t \<Rightarrow> fastd_lex_t" where
  "compact lx =
     (if start lx > 0
      then lx\<lparr>buffer := take (end_pos lx - start lx) (drop (start lx) (buffer lx))
                           @ drop (end_pos lx - start lx) (buffer lx),
               end_pos := end_pos lx - start lx,
               start := 0\<rparr>
      else lx)"

definition advance :: "fastd_lex_t \<Rightarrow> bool \<times> fastd_lex_t" where
  "advance lx =
     (let lx1 = compact lx in
      if end_pos lx1 = sizeof_buffer then (False, lx1)
      else
        (let (bytes, f) = fread (sizeof_buffer - end_pos lx1) (infile lx1);
             l = length bytes
         in (l \<noteq> 0,
             lx1\<lparr>buffer := take (end_pos lx1) (buffer lx1) @ bytes
                              @ drop (end_pos lx1 + l) (buffer lx1),
                  end_pos := end_pos lx1 + l,
                  infile := f\<rparr>)))"

text \<open>\<^verbatim>\<open>current\<close>: the byte at \<^verbatim>\<open>start + tok_len\<close>.\<close>

definition current :: "fastd_lex_t \<Rightarrow> char" where
  "current lx = buffer lx ! (start lx + tok_len lx)"

text \<open>\<^verbatim>\<open>get_token\<close> is \<^verbatim>\<open>strndup\<close>: at most \<^verbatim>\<open>tok_len\<close> bytes, stopping at a NUL.\<close>

definition c_string :: "string \<Rightarrow> string" where
  "c_string bs = takeWhile (\<lambda>c. c \<noteq> NUL) bs"

definition get_token :: "fastd_lex_t \<Rightarrow> string" where
  "get_token lx = c_string (take (tok_len lx) (drop (start lx) (buffer lx)))"

text \<open>
  \<^verbatim>\<open>next\<close>: step over one byte of the window, counting lines and columns;
  \<open>move\<close> commits the byte, otherwise it only extends the lookahead. The byte
  read here lies inside the window.
\<close>

definition lex_next :: "lexst \<Rightarrow> bool \<Rightarrow> bool \<times> lexst" where
  "lex_next s move =
     (let loc = fst s; lx = snd s in
      if start lx + tok_len lx \<ge> end_pos lx then (False, s)
      else
        (let loc1 = (if current lx = NEWLINE
                     then loc\<lparr>last_column := 0, last_line := last_line loc + 1\<rparr>
                     else loc\<lparr>last_column := last_column loc + 1\<rparr>);
             lx1 = (if move then lx\<lparr>start := start lx + 1\<rparr>
                     else lx\<lparr>tok_len := tok_len lx + 1\<rparr>)
         in if start lx1 + tok_len lx1 \<ge> end_pos lx1
            then (fst (advance lx1), loc1, snd (advance lx1))
            else (True, loc1, lx1)))"

text \<open>\<^verbatim>\<open>consume\<close>\<close>

definition consume :: "fastd_lex_t \<Rightarrow> bool \<Rightarrow> fastd_lex_t" where
  "consume lx ns = lx\<lparr>start := start lx + tok_len lx, tok_len := 0, needspace := ns\<rparr>"

subsection \<open>Tokens and results\<close>

text \<open>
  The token codes \<^verbatim>\<open>TOK_*\<close> come from the generated parser header; they are
  pairwise distinct, so they are the constructors of a datatype, each carrying
  the value that the code stores in \<^verbatim>\<open>yylval\<close>. A punctuation token is the
  byte itself (\<open>TOK_CHAR\<close>).
\<close>

type_synonym in_addr = "8 word list"
type_synonym in6_addr = "8 word list"

datatype token =
    TOK_CHAR char
  | TOK_STRING string
  | TOK_UINT "64 word"
  | TOK_ADDR4 in_addr
  | TOK_ADDR6 in6_addr
  | TOK_ADDRESSES | TOK_ANY | TOK_AS | TOK_AUTO | TOK_BIND | TOK_CAPABILITIES
  | TOK_CRYPTO | TOK_DEBUG | TOK_DEFAULT | TOK_DISESTABLISH | TOK_DOWN | TOK_DROP
  | TOK_EARLY | TOK_ERROR | TOK_ESTABLISH | TOK_FATAL | TOK_FLOAT | TOK_FORWARD
  | TOK_FROM | TOK_GROUP | TOK_HIDE | TOK_INCLUDE | TOK_INFO | TOK_INTERFACE | TOK_IP
  | TOK_IPV4 | TOK_IPV6 | TOK_KEY | TOK_LEVEL | TOK_LIMIT | TOK_LOG | TOK_MAC
  | TOK_METHOD | TOK_MODE | TOK_MTU | TOK_NO | TOK_ON | TOK_PEER | TOK_PEERS | TOK_PMTU
  | TOK_PORT | TOK_POST_DOWN | TOK_PRE_UP | TOK_PROTOCOL | TOK_REMOTE | TOK_SECRET
  | TOK_STDERR | TOK_SYSLOG | TOK_TAP | TOK_TO | TOK_TUN | TOK_UP | TOK_USE | TOK_USER
  | TOK_VERBOSE | TOK_VERIFY | TOK_WARN | TOK_YES

text \<open>
  The code returns \<^verbatim>\<open>-1\<close> and stores a message in \<^verbatim>\<open>yylval->error\<close>; each
  message is one error of the model.
\<close>

datatype lex_error =
    SyntaxError
  | IOError
  | UnterminatedComment
  | UnterminatedString
  | InvalidAddress
  | InvalidInteger

fun error_message :: "lex_error \<Rightarrow> string" where
  "error_message SyntaxError = ''syntax error''"
| "error_message IOError = ''I/O error''"
| "error_message UnterminatedComment = ''unterminated block comment''"
| "error_message UnterminatedString = ''unterminated string''"
| "error_message InvalidAddress = ''invalid address''"
| "error_message InvalidInteger = ''invalid integer constant''"

text \<open>
  What one call of \<^verbatim>\<open>fastd_lex\<close> returns: a token, an error, or \<^verbatim>\<open>0\<close> at the
  end of the input. \<open>OutOfBounds\<close> stands for a read of \<^verbatim>\<open>buffer[1024]\<close>, one
  byte behind the buffer, where C leaves the behaviour undefined.
\<close>

datatype lex_result = Token token | Error lex_error | End | OutOfBounds

subsection \<open>The keyword table\<close>

text \<open>The static array \<^verbatim>\<open>keywords\<close> (called \<open>keywords_table\<close> here).\<close>

type_synonym keyword_t = "string \<times> token"

definition keywords_table :: "keyword_t list" where
  "keywords_table = [
     (''addresses'', TOK_ADDRESSES),
     (''any'', TOK_ANY),
     (''as'', TOK_AS),
     (''auto'', TOK_AUTO),
     (''bind'', TOK_BIND),
     (''capabilities'', TOK_CAPABILITIES),
     (''crypto'', TOK_CRYPTO),
     (''debug'', TOK_DEBUG),
     (''default'', TOK_DEFAULT),
     (''disestablish'', TOK_DISESTABLISH),
     (''down'', TOK_DOWN),
     (''drop'', TOK_DROP),
     (''early'', TOK_EARLY),
     (''error'', TOK_ERROR),
     (''establish'', TOK_ESTABLISH),
     (''fatal'', TOK_FATAL),
     (''float'', TOK_FLOAT),
     (''forward'', TOK_FORWARD),
     (''from'', TOK_FROM),
     (''group'', TOK_GROUP),
     (''hide'', TOK_HIDE),
     (''include'', TOK_INCLUDE),
     (''info'', TOK_INFO),
     (''interface'', TOK_INTERFACE),
     (''ip'', TOK_IP),
     (''ipv4'', TOK_IPV4),
     (''ipv6'', TOK_IPV6),
     (''key'', TOK_KEY),
     (''level'', TOK_LEVEL),
     (''limit'', TOK_LIMIT),
     (''log'', TOK_LOG),
     (''mac'', TOK_MAC),
     (''method'', TOK_METHOD),
     (''mode'', TOK_MODE),
     (''mtu'', TOK_MTU),
     (''no'', TOK_NO),
     (''on'', TOK_ON),
     (''peer'', TOK_PEER),
     (''peers'', TOK_PEERS),
     (''pmtu'', TOK_PMTU),
     (''port'', TOK_PORT),
     (''post-down'', TOK_POST_DOWN),
     (''pre-up'', TOK_PRE_UP),
     (''protocol'', TOK_PROTOCOL),
     (''remote'', TOK_REMOTE),
     (''secret'', TOK_SECRET),
     (''stderr'', TOK_STDERR),
     (''syslog'', TOK_SYSLOG),
     (''tap'', TOK_TAP),
     (''to'', TOK_TO),
     (''tun'', TOK_TUN),
     (''up'', TOK_UP),
     (''use'', TOK_USE),
     (''user'', TOK_USER),
     (''verbose'', TOK_VERBOSE),
     (''verify'', TOK_VERIFY),
     (''warn'', TOK_WARN),
     (''yes'', TOK_YES)]"

subsection \<open>Library functions\<close>

text \<open>
  \<^verbatim>\<open>strcmp\<close> compares bytes as unsigned values; only the sign of the result is
  used by the callers.
\<close>

fun strcmp :: "string \<Rightarrow> string \<Rightarrow> int" where
  "strcmp [] [] = 0"
| "strcmp [] (y # ys) = - int (of_char y)"
| "strcmp (x # xs) [] = int (of_char x)"
| "strcmp (x # xs) (y # ys) =
     (if x = y then strcmp xs ys else int (of_char x) - int (of_char y))"

text \<open>
  \<^verbatim>\<open>compare_keywords\<close>: the key of the search is a \<^verbatim>\<open>keyword_t\<close> of which only
  the text is set, so the model passes the text alone.
\<close>

definition compare_keywords :: "string \<Rightarrow> keyword_t \<Rightarrow> int" where
  "compare_keywords k1 k2 = strcmp k1 (fst k2)"

text \<open>\<^verbatim>\<open>bsearch\<close>: binary search between a lower and an upper index.\<close>

function bsearch_loop :: "string \<Rightarrow> keyword_t list \<Rightarrow> nat \<Rightarrow> nat \<Rightarrow> keyword_t option" where
  "bsearch_loop key base l u =
     (if l < u then
        (let idx = (l + u) div 2;
             comparison = compare_keywords key (base ! idx)
         in if comparison < 0 then bsearch_loop key base l idx
            else if comparison > 0 then bsearch_loop key base (idx + 1) u
            else Some (base ! idx))
      else None)"
  by pat_completeness auto
termination
  by (relation "measure (\<lambda>(key, base, l, u). u - l)") auto

declare bsearch_loop.simps [simp del]

definition bsearch :: "string \<Rightarrow> keyword_t list \<Rightarrow> keyword_t option" where
  "bsearch key base = bsearch_loop key base 0 (length base)"

text \<open>
  \<^verbatim>\<open>strtoull(nptr, &endptr, 10)\<close>: white space, an optional sign, then decimal
  digits. The result is the value and the rest of the string at \<^verbatim>\<open>endptr\<close>.
  Without digits nothing is converted and \<^verbatim>\<open>endptr\<close> is \<^verbatim>\<open>nptr\<close>; a value
  beyond \<^verbatim>\<open>ULLONG_MAX\<close> gives \<^verbatim>\<open>ULLONG_MAX\<close> (and \<^verbatim>\<open>errno\<close>, which the caller
  does not read), with \<^verbatim>\<open>endptr\<close> behind the digits all the same.
\<close>

definition isspace :: "char \<Rightarrow> bool" where
  "isspace c \<longleftrightarrow> c \<in> {CHR '' '', CHR 0x09, CHR 0x0A, CHR 0x0B, CHR 0x0C, CHR 0x0D}"

definition digit_value :: "char \<Rightarrow> int" where
  "digit_value c = of_char c - of_char (CHR ''0'')"

definition digits_value :: "string \<Rightarrow> int" where
  "digits_value ds = foldl (\<lambda>acc c. acc * 10 + digit_value c) 0 ds"

definition ULLONG_MAX :: int where "ULLONG_MAX = 2 ^ 64 - 1"

definition strtoull :: "string \<Rightarrow> 64 word \<times> string" where
  "strtoull nptr =
     (let s1 = dropWhile isspace nptr;
          neg = (s1 \<noteq> [] \<and> hd s1 = CHR ''-'');
          s2 = (if s1 \<noteq> [] \<and> (hd s1 = CHR ''-'' \<or> hd s1 = CHR ''+'') then tl s1 else s1);
          ds = takeWhile is_digit s2
      in if ds = [] then (0, nptr)
         else
           (let v = digits_value ds
            in (if v > ULLONG_MAX then of_int ULLONG_MAX
                else if neg then - of_int v else of_int v,
                dropWhile is_digit s2)))"

text \<open>
  \<^verbatim>\<open>inet_pton\<close> belongs to the C library; the lexer only tests whether it
  succeeded. The two decoders are parameters of the model: \<open>None\<close> is the
  return value \<^verbatim>\<open>0\<close>.
\<close>

record libc =
  inet_pton4 :: "string \<Rightarrow> in_addr option"
  inet_pton6 :: "string \<Rightarrow> in6_addr option"

subsection \<open>Stepping never adds unread input\<close>

text \<open>
  The number of bytes not yet passed over: those of the window behind the
  lookahead, and those the stream still holds. Every loop of the lexer steps
  with \<^verbatim>\<open>next\<close> and stops when it returns false, so this number bounds them.
\<close>

definition unread :: "fastd_lex_t \<Rightarrow> nat" where
  "unread lx = length (pending (infile lx)) + (end_pos lx - (start lx + tok_len lx))"

lemma compact_fields [simp]:
  "infile (compact lx) = infile lx"
  "needspace (compact lx) = needspace lx"
  "tok_len (compact lx) = tok_len lx"
  "start (compact lx) = 0"
  "end_pos (compact lx) = end_pos lx - start lx"
  by (auto simp: compact_def)

lemma advance_unread:
  assumes "start lx + tok_len lx \<le> end_pos lx"
  shows "unread (snd (advance lx)) = unread lx"
  using assms
  by (auto simp: unread_def advance_def fread_def Let_def split: prod.splits)

lemma lex_next_unread:
  assumes "fst (lex_next s m)"
  shows "unread (snd (snd (lex_next s m))) < unread (snd s)"
proof -
  from assms have lt: "start (snd s) + tok_len (snd s) < end_pos (snd s)"
    by (auto simp: lex_next_def Let_def split: if_splits)
  show ?thesis
  proof (cases m)
    case True
    with lt show ?thesis
      using advance_unread [of "(snd s)\<lparr>start := start (snd s) + 1\<rparr>"]
      by (auto simp: lex_next_def unread_def Let_def)
  next
    case False
    with lt show ?thesis
      using advance_unread [of "(snd s)\<lparr>tok_len := tok_len (snd s) + 1\<rparr>"]
      by (auto simp: lex_next_def unread_def Let_def)
  qed
qed

lemma lex_next_less:
  "(ok, s1) = lex_next s m \<Longrightarrow> ok \<Longrightarrow> unread (snd s1) < unread (snd s)"
  using lex_next_unread [of s m] by (cases "lex_next s m") simp

subsection \<open>Comments and strings\<close>

text \<open>The current byte of a state, and the pair \<^verbatim>\<open>next(yylloc, lex, true); consume(lex, ns);\<close>.\<close>

definition cur :: "lexst \<Rightarrow> char" where
  "cur s = current (snd s)"

definition next_consume :: "lexst \<Rightarrow> bool \<Rightarrow> lexst" where
  "next_consume s ns =
     (fst (snd (lex_next s True)), consume (snd (snd (lex_next s True))) ns)"

text \<open>\<^verbatim>\<open>end\<close> (called \<open>lex_end\<close> here): the result at the end of the input.\<close>

definition lex_end :: "lexst \<Rightarrow> lex_result" where
  "lex_end s = (if ferror (infile (snd s)) then Error IOError else End)"

text \<open>
  \<^verbatim>\<open>consume_comment\<close>: the loop carries \<^verbatim>\<open>prev\<close>; \<open>None\<close> is the return value
  \<^verbatim>\<open>0\<close> of a comment that was closed.
\<close>

function consume_comment_loop :: "char \<Rightarrow> lexst \<Rightarrow> lex_error option \<times> lexst" where
  "consume_comment_loop prev s =
     (case lex_next s True of
        (ok, s1) \<Rightarrow>
          if ok then
            (if prev = CHR ''*'' \<and> cur s1 = CHR ''/''
             then (None, next_consume s1 False)
             else consume_comment_loop (cur s1) s1)
          else if ferror (infile (snd s1)) then (Some IOError, s1)
          else (Some UnterminatedComment, s1))"
  by pat_completeness auto
termination
  by (relation "measure (\<lambda>(prev, s). unread (snd s))") (auto dest: lex_next_less)

declare consume_comment_loop.simps [simp del]

definition consume_comment :: "lexst \<Rightarrow> lex_error option \<times> lexst" where
  "consume_comment s = consume_comment_loop NUL s"

text \<open>\<^verbatim>\<open>unterminated_string\<close>\<close>

definition unterminated_string :: "lexst \<Rightarrow> lex_error" where
  "unterminated_string s = (if ferror (infile (snd s)) then IOError else UnterminatedString)"

text \<open>
  The loop of \<^verbatim>\<open>parse_string\<close>. The scratch buffer \<^verbatim>\<open>buf\<close> with its length
  \<^verbatim>\<open>pos\<close> is the list \<open>buf\<close>; the code doubles its capacity when it is full,
  which changes no result.
\<close>

function parse_string_loop :: "string \<Rightarrow> lexst \<Rightarrow> (lex_error + string) \<times> lexst" where
  "parse_string_loop buf s =
     (case lex_next s True of
        (ok, s1) \<Rightarrow>
          if \<not> ok then (Inl (unterminated_string s1), s1)
          else if cur s1 = DQUOTE then (Inr buf, s1)
          else if cur s1 = BACKSLASH then
            (case lex_next s1 True of
               (ok2, s2) \<Rightarrow>
                 if \<not> ok2 then (Inl (unterminated_string s2), s2)
                 else if cur s2 = NEWLINE then parse_string_loop buf s2
                 else parse_string_loop (buf @ [cur s2]) s2)
          else parse_string_loop (buf @ [cur s1]) s1)"
  by pat_completeness auto
termination
  by (relation "measure (\<lambda>(buf, s). unread (snd s))")
     (auto dest: lex_next_less less_trans [OF lex_next_less lex_next_less])

declare parse_string_loop.simps [simp del]

subsection \<open>The scanners\<close>

text \<open>
  The loop that the address scanners, the keyword scanner and the line comment
  share: \<^verbatim>\<open>while (next(yylloc, lex, move)) { if (!p(current(lex))) break; }\<close>
\<close>

function scan_loop :: "bool \<Rightarrow> (char \<Rightarrow> bool) \<Rightarrow> lexst \<Rightarrow> lexst" where
  "scan_loop move p s =
     (case lex_next s move of
        (ok, s1) \<Rightarrow> if ok then (if \<not> p (cur s1) then s1 else scan_loop move p s1) else s1)"
  by pat_completeness auto
termination
  by (relation "measure (\<lambda>(move, p, s). unread (snd s))") (auto dest: lex_next_less)

declare scan_loop.simps [simp del]

text \<open>
  Modelled from the spec: \<^verbatim>\<open>fastd_string_stack_dupn(buf, pos)\<close> is defined outside
  \<^verbatim>\<open>lex.c\<close>; the STRING token carries the decoded bytes, the first \<^verbatim>\<open>pos\<close>
  bytes of the scratch buffer.
\<close>

definition fastd_string_stack_dupn :: "string \<Rightarrow> nat \<Rightarrow> string" where
  "fastd_string_stack_dupn buf pos = take pos buf"

text \<open>\<^verbatim>\<open>parse_string\<close>\<close>

definition parse_string :: "lexst \<Rightarrow> lex_result \<times> lexst" where
  "parse_string s =
     (if needspace (snd s) then (Error SyntaxError, s)
      else
        (case parse_string_loop [] s of
           (Inl e, s1) \<Rightarrow> (Error e, s1)
         | (Inr buf, s1) \<Rightarrow>
             (Token (TOK_STRING (fastd_string_stack_dupn buf (length buf))),
              next_consume s1 True)))"

text \<open>
  \<^verbatim>\<open>parse_ipv6_address\<close>. After the scan the code reads the current byte
  without asking whether the scan stopped inside the window, then overwrites it
  with a NUL and decodes the C string that begins behind the bracket.
\<close>

definition parse_ipv6_address :: "libc \<Rightarrow> lexst \<Rightarrow> lex_result \<times> lexst" where
  "parse_ipv6_address libc s =
     (if needspace (snd s) then (Error SyntaxError, s)
      else
        (let s1 = scan_loop False (\<lambda>c. is_digit c \<or> c = CHR '':'') s;
             lx = snd s1
         in if sizeof_buffer \<le> start lx + tok_len lx then (OutOfBounds, s1)
            else if current lx = CHR '']'' then
              (let lx1 = lx\<lparr>buffer := (buffer lx)[start lx + tok_len lx := NUL]\<rparr>
               in case inet_pton6 libc (c_string (drop (start lx1 + 1) (buffer lx1))) of
                    None \<Rightarrow> (Error InvalidAddress, (fst s1, lx1))
                  | Some a \<Rightarrow> (Token (TOK_ADDR6 a), next_consume (fst s1, lx1) True))
            else (Error InvalidAddress, s1)))"

text \<open>\<^verbatim>\<open>parse_ipv4_address\<close>\<close>

definition parse_ipv4_address :: "libc \<Rightarrow> lexst \<Rightarrow> lex_result \<times> lexst" where
  "parse_ipv4_address libc s =
     (if needspace (snd s) then (Error SyntaxError, s)
      else
        (let s1 = scan_loop False (\<lambda>c. is_digit c \<or> c = CHR ''.'') s
         in case inet_pton4 libc (get_token (snd s1)) of
              None \<Rightarrow> (Error InvalidAddress, s1)
            | Some a \<Rightarrow> (Token (TOK_ADDR4 a), s1)))"

text \<open>
  \<^verbatim>\<open>parse_number\<close>: the loop leaves with \<open>True\<close> when it meets a dot, where the
  code hands over to \<^verbatim>\<open>parse_ipv4_address\<close>.
\<close>

function number_loop :: "lexst \<Rightarrow> bool \<times> lexst" where
  "number_loop s =
     (case lex_next s False of
        (ok, s1) \<Rightarrow>
          if ok then
            (if cur s1 = CHR ''.'' then (True, s1)
             else if \<not> is_digit (cur s1) then (False, s1)
             else number_loop s1)
          else (False, s1))"
  by pat_completeness auto
termination
  by (relation "measure (\<lambda>s. unread (snd s))") (auto dest: lex_next_less)

declare number_loop.simps [simp del]

definition parse_number :: "libc \<Rightarrow> lexst \<Rightarrow> lex_result \<times> lexst" where
  "parse_number libc s =
     (if needspace (snd s) then (Error SyntaxError, s)
      else
        (case number_loop s of
           (dot, s1) \<Rightarrow>
             if dot then parse_ipv4_address libc s1
             else
               (case strtoull (get_token (snd s1)) of
                  (uint64, endptr) \<Rightarrow>
                    if endptr \<noteq> [] then (Error InvalidInteger, s1)
                    else (Token (TOK_UINT uint64), s1))))"

text \<open>\<^verbatim>\<open>parse_keyword\<close>\<close>

definition parse_keyword :: "lexst \<Rightarrow> lex_result \<times> lexst" where
  "parse_keyword s =
     (if needspace (snd s) then (Error SyntaxError, s)
      else
        (let s1 = scan_loop False (\<lambda>c. is_lower c \<or> is_digit c \<or> c = CHR ''-'') s
         in case bsearch (get_token (snd s1)) keywords_table of
              None \<Rightarrow> (Error SyntaxError, s1)
            | Some ret \<Rightarrow> (Token (snd ret), (fst s1, consume (snd s1) True))))"

subsection \<open>Construction and the token pull\<close>

text \<open>\<^verbatim>\<open>fastd_lex_init\<close>: \<^verbatim>\<open>calloc\<close> zeroes the structure, then the buffer is filled.\<close>

definition fastd_lex_init :: "FILE \<Rightarrow> fastd_lex_t" where
  "fastd_lex_init f =
     snd (advance \<lparr>infile = f, needspace = False, start = 0, end_pos = 0, tok_len = 0,
                   buffer = replicate sizeof_buffer NUL\<rparr>)"

text \<open>
  The line comment of \<^verbatim>\<open>fastd_lex\<close> (\<^verbatim>\<open>case '#'\<close>, and \<^verbatim>\<open>//\<close> falling through).
\<close>

definition line_comment :: "lexst \<Rightarrow> lexst" where
  "line_comment s = next_consume (scan_loop True (\<lambda>c. c \<noteq> NEWLINE) s) False"

text \<open>
  The bytes from \<^verbatim>\<open>start\<close> on, in the window and in the stream: every round of
  the loop of \<^verbatim>\<open>fastd_lex\<close> that goes on has fewer of them.
\<close>

definition unconsumed :: "fastd_lex_t \<Rightarrow> nat" where
  "unconsumed lx = length (pending (infile lx)) + (end_pos lx - start lx)"

lemma advance_unconsumed: "unconsumed (snd (advance lx)) = unconsumed lx"
  by (auto simp: unconsumed_def advance_def fread_def Let_def split: prod.splits)

lemma lex_next_unconsumed: "unconsumed (snd (snd (lex_next s m))) \<le> unconsumed (snd s)"
  using advance_unconsumed [of "(snd s)\<lparr>start := start (snd s) + 1\<rparr>"]
        advance_unconsumed [of "(snd s)\<lparr>tok_len := tok_len (snd s) + 1\<rparr>"]
  by (auto simp: lex_next_def unconsumed_def Let_def)

lemma lex_next_move_unconsumed:
  assumes "start (snd s) + tok_len (snd s) < end_pos (snd s)"
  shows "unconsumed (snd (snd (lex_next s True))) < unconsumed (snd s)"
  using advance_unconsumed [of "(snd s)\<lparr>start := start (snd s) + 1\<rparr>"] assms
  by (auto simp: lex_next_def unconsumed_def Let_def)

lemma lex_next_stuck:
  "\<not> start (snd s) + tok_len (snd s) < end_pos (snd s) \<Longrightarrow> lex_next s m = (False, s)"
  by (simp add: lex_next_def Let_def)

lemma consume_unconsumed: "unconsumed (consume lx ns) \<le> unconsumed lx"
  by (simp add: unconsumed_def consume_def)

lemma next_consume_unconsumed: "unconsumed (snd (next_consume s ns)) \<le> unconsumed (snd s)"
  using lex_next_unconsumed [of s True] consume_unconsumed [of "snd (snd (lex_next s True))" ns]
  by (simp add: next_consume_def)

lemma next_consume_less:
  assumes "start (snd s) < end_pos (snd s)"
  shows "unconsumed (snd (next_consume s ns)) < unconsumed (snd s)"
proof (cases "start (snd s) + tok_len (snd s) < end_pos (snd s)")
  case True
  from lex_next_move_unconsumed [OF True]
    consume_unconsumed [of "snd (snd (lex_next s True))" ns]
  show ?thesis
    by (simp add: next_consume_def)
next
  case False
  with assms show ?thesis
    by (simp add: lex_next_stuck next_consume_def unconsumed_def consume_def)
qed

lemma scan_loop_unconsumed: "unconsumed (snd (scan_loop move p s)) \<le> unconsumed (snd s)"
proof (induction move p s rule: scan_loop.induct)
  case (1 move p s)
  obtain ok s1 where n: "lex_next s move = (ok, s1)"
    by (cases "lex_next s move")
  have le: "unconsumed (snd s1) \<le> unconsumed (snd s)"
    using lex_next_unconsumed [of s move] n by simp
  show ?case
  proof (cases "ok \<and> p (cur s1)")
    case True
    with "1.IH" [OF n [symmetric]] le show ?thesis
      by (subst scan_loop.simps) (simp add: n)
  next
    case False
    with le show ?thesis
      by (subst scan_loop.simps) (auto simp: n)
  qed
qed

lemma scan_loop_stuck:
  "\<not> start (snd s) + tok_len (snd s) < end_pos (snd s) \<Longrightarrow> scan_loop move p s = s"
  by (subst scan_loop.simps) (simp add: lex_next_stuck)

lemma scan_loop_move_unconsumed:
  assumes "start (snd s) + tok_len (snd s) < end_pos (snd s)"
  shows "unconsumed (snd (scan_loop True p s)) < unconsumed (snd s)"
  using lex_next_move_unconsumed [OF assms]
    scan_loop_unconsumed [of True p "snd (lex_next s True)"]
  by (subst scan_loop.simps) (auto split: prod.splits)

lemma line_comment_less:
  assumes "start (snd s) < end_pos (snd s)"
  shows "unconsumed (snd (line_comment s)) < unconsumed (snd s)"
proof (cases "start (snd s) + tok_len (snd s) < end_pos (snd s)")
  case True
  from scan_loop_move_unconsumed [OF True, of "\<lambda>c. c \<noteq> NEWLINE"]
    next_consume_unconsumed [of "scan_loop True (\<lambda>c. c \<noteq> NEWLINE) s" False]
  show ?thesis by (simp add: line_comment_def)
next
  case False
  with assms show ?thesis
    by (simp add: line_comment_def scan_loop_stuck next_consume_less)
qed

lemma line_comment_unconsumed: "unconsumed (snd (line_comment s)) \<le> unconsumed (snd s)"
  using scan_loop_unconsumed [of True "\<lambda>c. c \<noteq> NEWLINE" s]
    next_consume_unconsumed [of "scan_loop True (\<lambda>c. c \<noteq> NEWLINE) s" False]
  by (simp add: line_comment_def)

lemma consume_comment_loop_unconsumed:
  "unconsumed (snd (snd (consume_comment_loop prev s))) \<le> unconsumed (snd s)"
proof (induction prev s rule: consume_comment_loop.induct)
  case (1 prev s)
  obtain ok s1 where n: "lex_next s True = (ok, s1)"
    by (cases "lex_next s True")
  have le: "unconsumed (snd s1) \<le> unconsumed (snd s)"
    using lex_next_unconsumed [of s True] n by simp
  show ?case
  proof (cases "ok \<and> \<not> (prev = CHR ''*'' \<and> cur s1 = CHR ''/'')")
    case True
    with "1.IH" [OF n [symmetric]] le show ?thesis
      by (subst consume_comment_loop.simps) (auto simp: n)
  next
    case False
    with le next_consume_unconsumed [of s1 False] show ?thesis
      by (subst consume_comment_loop.simps) (auto simp: n)
  qed
qed

text \<open>
  \<^verbatim>\<open>fastd_lex\<close>. The \<^verbatim>\<open>switch\<close> reads the current byte after testing
  \<^verbatim>\<open>end > start\<close> only; with a pending lookahead it may lie behind the window,
  and one byte behind the buffer when the window is full.
\<close>

function fastd_lex :: "libc \<Rightarrow> lexst \<Rightarrow> lex_result \<times> lexst" where
  "fastd_lex libc s =
     (if start (snd s) < end_pos (snd s) then
        (let s0 = ((fst s)\<lparr>first_line := last_line (fst s),
                            first_column := last_column (fst s) + 1\<rparr>, snd s)
         in if sizeof_buffer \<le> start (snd s) + tok_len (snd s) then (OutOfBounds, s0)
            else if cur s0 \<in> {CHR '' '', NEWLINE, CHR 0x09, CHR 0x0D}
              then fastd_lex libc (next_consume s0 False)
            else if cur s0 \<in> {CHR '';'', CHR '':'', CHR ''{'', CHR ''}''}
              then (Token (TOK_CHAR (cur s0)), next_consume s0 False)
            else if cur s0 = CHR ''/'' then
              (case lex_next s0 True of
                 (ok, s1) \<Rightarrow>
                   if \<not> ok then (Error SyntaxError, s1)
                   else if cur s1 = CHR ''*'' then
                     (case consume_comment s1 of
                        (Some e, s2) \<Rightarrow> (Error e, s2)
                      | (None, s2) \<Rightarrow> fastd_lex libc s2)
                   else if cur s1 \<noteq> CHR ''/'' then (Error SyntaxError, s1)
                   else fastd_lex libc (line_comment s1))
            else if cur s0 = CHR ''#'' then fastd_lex libc (line_comment s0)
            else if cur s0 = DQUOTE then parse_string s0
            else if cur s0 = CHR ''['' then parse_ipv6_address libc s0
            else if is_digit (cur s0) then parse_number libc s0
            else if is_lower (cur s0) then parse_keyword s0
            else (Error SyntaxError, s0))
      else (lex_end s, s))"
  by pat_completeness auto
termination
proof (relation "measure (\<lambda>(libc, s). unconsumed (snd s))", goal_cases)
  case 1
  show ?case by simp
next
  case (2 libc s s0)
  then show ?case
    using next_consume_less [of s0 False] by simp
next
  case (3 libc s s0 ok s1 rc s2)
  have "ok" using 3 by simp
  then have "start (snd s0) + tok_len (snd s0) < end_pos (snd s0)"
    using 3(7) lex_next_stuck [of s0 True] by (cases "start (snd s0) + tok_len (snd s0) < end_pos (snd s0)") auto
  from lex_next_move_unconsumed [OF this] 3(7) have "unconsumed (snd s1) < unconsumed (snd s0)"
    by (cases "lex_next s0 True") simp
  moreover have "unconsumed (snd s2) \<le> unconsumed (snd s1)"
    using consume_comment_loop_unconsumed [of NUL s1] 3(10)
    by (cases "consume_comment_loop NUL s1") (simp add: consume_comment_def)
  ultimately show ?case using 3(2) by simp
next
  case (4 libc s s0 ok s1)
  have "ok" using 4 by simp
  then have "start (snd s0) + tok_len (snd s0) < end_pos (snd s0)"
    using 4(7) lex_next_stuck [of s0 True] by (cases "start (snd s0) + tok_len (snd s0) < end_pos (snd s0)") auto
  from lex_next_move_unconsumed [OF this] 4(7) have "unconsumed (snd s1) < unconsumed (snd s0)"
    by (cases "lex_next s0 True") simp
  with line_comment_unconsumed [of s1] show ?case using 4(2) by simp
next
  case (5 libc s s0)
  then show ?case
    using line_comment_less [of s0] by simp
qed

declare fastd_lex.simps [simp del]

section \<open>Notions used in the statements\<close>

subsection \<open>The window and the unread input\<close>

text \<open>
  The invariant of the window: \<open>start \<le> start + tok_len \<le> end \<le> capacity\<close>.
\<close>

definition window_inv :: "fastd_lex_t \<Rightarrow> bool" where
  "window_inv lx \<longleftrightarrow>
     start lx \<le> start lx + tok_len lx \<and> start lx + tok_len lx \<le> end_pos lx
     \<and> end_pos lx \<le> sizeof_buffer"

text \<open>
  The input that lies ahead: the bytes of the window from the current byte on
  (the byte at \<^verbatim>\<open>start + tok_len\<close>), then what the stream still holds.
\<close>

definition rest_input :: "fastd_lex_t \<Rightarrow> string" where
  "rest_input lx =
     take (end_pos lx - (start lx + tok_len lx)) (drop (start lx + tok_len lx) (buffer lx))
     @ pending (infile lx)"

text \<open>
  Whether the stream has reported an error or will report one when it ends.
\<close>

definition io_failed :: "fastd_lex_t \<Rightarrow> bool" where
  "io_failed lx \<longleftrightarrow> ferror (infile lx) \<or> fails (infile lx)"

text \<open>
  A state between two steps: the window invariant holds, the buffer has its
  size, and the current byte is inside the window whenever input lies ahead.
  A lookahead may be pending (\<^verbatim>\<open>tok_len\<close> is not restricted).
\<close>

definition positioned :: "fastd_lex_t \<Rightarrow> bool" where
  "positioned lx \<longleftrightarrow>
     window_inv lx \<and> length (buffer lx) = sizeof_buffer
     \<and> (rest_input lx \<noteq> [] \<longrightarrow> start lx + tok_len lx < end_pos lx)"

text \<open>The bytes that the dispatcher skips as white space.\<close>

definition is_blank :: "char \<Rightarrow> bool" where
  "is_blank c \<longleftrightarrow> c \<in> {CHR '' '', NEWLINE, CHR 0x09, CHR 0x0D}"

subsection \<open>Lexing a text\<close>

text \<open>
  A stream that delivers a text and then ends without an error, and the first
  token pull of a lexer constructed on it.
\<close>

definition stream_of :: "string \<Rightarrow> FILE" where
  "stream_of text = \<lparr>pending = text, fails = False, ferror = False\<rparr>"

definition lex_text :: "libc \<Rightarrow> yylloc \<Rightarrow> string \<Rightarrow> lex_result \<times> lexst" where
  "lex_text libc loc text = fastd_lex libc (loc, fastd_lex_init (stream_of text))"

text \<open>
  A location and a pair of decoders for the concrete instances: the decoders
  know one address each.
\<close>

definition loc_start :: yylloc where
  "loc_start = \<lparr>first_line = 1, first_column = 0, last_line = 1, last_column = 0\<rparr>"

definition libc_sample :: libc where
  "libc_sample =
     \<lparr>inet_pton4 = (\<lambda>s. if s = ''1.2.3.4'' then Some [1, 2, 3, 4] else None),
      inet_pton6 = (\<lambda>s. if s = ''::1'' then Some [0, 0, 0, 0, 0, 0, 0, 0, 0, 0, 0, 0, 0, 0, 0, 1]
                         else None)\<rparr>"

subsection \<open>String literals and comments, as texts\<close>

text \<open>
  The text between the quotes of a string literal: every quote in it is
  escaped, and it does not end in the middle of an escape.
\<close>

fun string_body :: "string \<Rightarrow> bool" where
  "string_body [] = True"
| "string_body (c # cs) =
     (if c = DQUOTE then False
      else if c = BACKSLASH then (case cs of [] \<Rightarrow> False | d # ds \<Rightarrow> string_body ds)
      else string_body cs)"

text \<open>A text without an unescaped quote: a string that is never closed.\<close>

fun unquoted :: "string \<Rightarrow> bool" where
  "unquoted [] = True"
| "unquoted (c # cs) =
     (if c = DQUOTE then False
      else if c = BACKSLASH then (case cs of [] \<Rightarrow> True | d # ds \<Rightarrow> unquoted ds)
      else unquoted cs)"

text \<open>
  What a string body stands for: a backslash and a newline vanish, a backslash
  before another byte leaves that byte.
\<close>

fun unescape :: "string \<Rightarrow> string" where
  "unescape [] = []"
| "unescape (c # cs) =
     (if c = BACKSLASH
      then (case cs of [] \<Rightarrow> [] | d # ds \<Rightarrow> if d = NEWLINE then unescape ds else d # unescape ds)
      else c # unescape cs)"

text \<open>The escaped form of a byte sequence: quotes and backslashes get a backslash.\<close>

definition escape :: "string \<Rightarrow> string" where
  "escape s = concat (map (\<lambda>c. if c = DQUOTE \<or> c = BACKSLASH then [BACKSLASH, c] else [c]) s)"

text \<open>
  Whether a comment body closes the comment, given the byte before it: some
  \<^verbatim>\<open>*\<close> is directly followed by \<^verbatim>\<open>/\<close>.
\<close>

fun closes :: "char \<Rightarrow> string \<Rightarrow> bool" where
  "closes prev [] = False"
| "closes prev (c # cs) = ((prev = CHR ''*'' \<and> c = CHR ''/'') \<or> closes c cs)"

text \<open>
  What a pull passes over before it reaches a token: white space, line
  comments with their newline (\<^verbatim>\<open>#\<close> or \<^verbatim>\<open>//\<close>), and block comments up to
  their first \<^verbatim>\<open>*/\<close>.
\<close>

inductive skipped :: "string \<Rightarrow> bool" where
  nothing: "skipped []"
| blank: "is_blank c \<Longrightarrow> skipped pre \<Longrightarrow> skipped (c # pre)"
| hash_comment:
    "NEWLINE \<notin> set body \<Longrightarrow> skipped pre \<Longrightarrow> skipped (CHR ''#'' # body @ NEWLINE # pre)"
| slash_comment:
    "NEWLINE \<notin> set body \<Longrightarrow> skipped pre \<Longrightarrow> skipped (''//'' @ body @ NEWLINE # pre)"
| block_comment:
    "\<not> sublist ''*/'' (body @ ''*'') \<Longrightarrow> skipped pre \<Longrightarrow> skipped (''/*'' @ body @ ''*/'' @ pre)"

subsection \<open>Keywords and numbers, as texts\<close>

text \<open>
  The order that \<^verbatim>\<open>bsearch\<close> relies on: every entry of the table compares
  below every later one.
\<close>

definition sorted_by_text :: "keyword_t list \<Rightarrow> bool" where
  "sorted_by_text base \<longleftrightarrow> sorted_wrt (\<lambda>k1 k2. compare_keywords (fst k1) k2 < 0) base"

text \<open>The bytes of the class \<^verbatim>\<open>[a-z0-9-]\<close>.\<close>

definition is_keyword_char :: "char \<Rightarrow> bool" where
  "is_keyword_char c \<longleftrightarrow> is_lower c \<or> is_digit c \<or> c = CHR ''-''"

text \<open>The decimal text of a natural number.\<close>

function decimal :: "nat \<Rightarrow> string" where
  "decimal n =
     (if n < 10 then [char_of (48 + n)]
      else decimal (n div 10) @ [char_of (48 + n mod 10)])"
  by pat_completeness auto
termination
  by (relation "measure id") auto

declare decimal.simps [simp del]

text \<open>
  A lexer whose window is \<open>w\<close>, from the front of the buffer, with nothing more
  to come: the buffer is full or the stream is at its end.
\<close>

definition lookahead :: "fastd_lex_t \<Rightarrow> string \<Rightarrow> bool" where
  "lookahead lx w \<longleftrightarrow>
     start lx = 0 \<and> end_pos lx = length w \<and> take (length w) (buffer lx) = w
     \<and> length (buffer lx) = sizeof_buffer \<and> length w \<le> sizeof_buffer
     \<and> (length w < sizeof_buffer \<longrightarrow> pending (infile lx) = [])"

section \<open>Lemmas\<close>

subsection \<open>Committed steps\<close>

lemma window_split:
  assumes "i < e" "e \<le> length buf"
  shows "take (e - i) (drop i buf) = buf ! i # take (e - Suc i) (drop (Suc i) buf)"
proof -
  from assms have "i < length buf" by simp
  then have "drop i buf = buf ! i # drop (Suc i) buf"
    by (simp add: Cons_nth_drop_Suc)
  moreover from assms have "e - i = Suc (e - Suc i)" by simp
  ultimately show ?thesis by simp
qed

lemma positioned_current:
  assumes "positioned lx" "rest_input lx = c # cs"
  shows "current lx = c" "start lx < end_pos lx" "start lx + tok_len lx < sizeof_buffer"
    "start lx + tok_len lx < end_pos lx"
proof -
  from assms show lt: "start lx + tok_len lx < end_pos lx" by (simp add: positioned_def)
  then show "start lx < end_pos lx" by simp
  from assms lt show "start lx + tok_len lx < sizeof_buffer"
    by (simp add: positioned_def window_inv_def)
  from assms lt have "end_pos lx \<le> length (buffer lx)"
    by (simp add: positioned_def window_inv_def)
  from window_split [OF lt this] assms show "current lx = c"
    by (simp add: current_def rest_input_def)
qed

lemma positioned_empty:
  assumes "positioned lx" "rest_input lx = []" "tok_len lx = 0"
  shows "\<not> start lx < end_pos lx"
  using assms by (auto simp: positioned_def window_inv_def rest_input_def)

lemma advance_refill:
  assumes "start lx + tok_len lx = end_pos lx" "0 < start lx" "end_pos lx \<le> sizeof_buffer"
    "length (buffer lx) = sizeof_buffer"
  shows "fst (advance lx) = (pending (infile lx) \<noteq> [])
    \<and> positioned (snd (advance lx))
    \<and> rest_input (snd (advance lx)) = pending (infile lx)
    \<and> needspace (snd (advance lx)) = needspace lx
    \<and> tok_len (snd (advance lx)) = tok_len lx
    \<and> io_failed (snd (advance lx)) = io_failed lx
    \<and> (pending (infile lx) = [] \<longrightarrow> ferror (infile (snd (advance lx))) = io_failed lx)"
proof -
  from assms have e: "end_pos lx - start lx = tok_len lx" "tok_len lx < sizeof_buffer"
    by simp_all
  let ?c = "compact lx"
  from assms(2) e have c: "start ?c = 0" "end_pos ?c = tok_len lx" "tok_len ?c = tok_len lx"
    "infile ?c = infile lx" "needspace ?c = needspace lx"
    by simp_all
  from assms have "tok_len lx \<le> sizeof_buffer - start lx" by simp
  with assms(2,4) e have cl: "length (buffer ?c) = sizeof_buffer"
    by (simp add: compact_def min_def)
  show ?thesis
  proof (cases "sizeof_buffer - tok_len lx \<le> length (pending (infile lx))")
    case True
    with e have ne: "pending (infile lx) \<noteq> []" by auto
    from True e c cl ne show ?thesis
      by (simp add: advance_def fread_def Let_def positioned_def window_inv_def
          rest_input_def io_failed_def)
  next
    case False
    with e c cl show ?thesis
      by (simp add: advance_def fread_def Let_def positioned_def window_inv_def
          rest_input_def io_failed_def)
  qed
qed

lemma lex_next_move_all:
  assumes "positioned lx" "rest_input lx = c # cs"
  shows "fst (lex_next (loc, lx) True) = (cs \<noteq> [])
    \<and> positioned (snd (snd (lex_next (loc, lx) True)))
    \<and> rest_input (snd (snd (lex_next (loc, lx) True))) = cs
    \<and> needspace (snd (snd (lex_next (loc, lx) True))) = needspace lx
    \<and> tok_len (snd (snd (lex_next (loc, lx) True))) = tok_len lx
    \<and> io_failed (snd (snd (lex_next (loc, lx) True))) = io_failed lx
    \<and> (cs = [] \<longrightarrow> ferror (infile (snd (snd (lex_next (loc, lx) True)))) = io_failed lx)"
proof -
  note fc = positioned_current [OF assms]
  let ?lx1 = "lx\<lparr>start := start lx + 1\<rparr>"
  have len: "length (buffer lx) = sizeof_buffer" and inv: "window_inv lx"
    using assms by (simp_all add: positioned_def)
  have el: "end_pos lx \<le> length (buffer lx)"
    using inv len by (simp add: window_inv_def)
  note split = window_split [OF fc(4) el]
  show ?thesis
  proof (cases "start lx + 1 + tok_len lx < end_pos lx")
    case True
    have r: "rest_input ?lx1 = cs"
      using assms(2) split by (simp add: rest_input_def)
    have ne: "cs \<noteq> []"
      using True assms(2) split el
      by (auto simp: rest_input_def)
    have "positioned ?lx1"
      using True inv len by (simp add: positioned_def window_inv_def)
    with r ne show ?thesis
      using True fc(4) by (simp add: lex_next_def Let_def io_failed_def)
  next
    case False
    with fc(4) have e: "start ?lx1 + tok_len ?lx1 = end_pos ?lx1" by simp
    have p: "pending (infile lx) = cs"
      using assms(2) split e by (simp add: rest_input_def)
    have "0 < start ?lx1" "end_pos ?lx1 \<le> sizeof_buffer" "length (buffer ?lx1) = sizeof_buffer"
      using len inv by (simp_all add: window_inv_def)
    from advance_refill [OF e this] p show ?thesis
      using False fc(4) by (simp add: lex_next_def Let_def io_failed_def)
  qed
qed

lemma lex_next_move:
  assumes "positioned lx" "rest_input lx = c # cs" "lex_next (loc, lx) True = (ok, loc1, lx1)"
  shows "ok = (cs \<noteq> [])" "positioned lx1" "rest_input lx1 = cs" "needspace lx1 = needspace lx"
    "io_failed lx1 = io_failed lx" "cs = [] \<Longrightarrow> ferror (infile lx1) = io_failed lx"
    "tok_len lx1 = tok_len lx"
  using lex_next_move_all [OF assms(1,2), of loc] assms(3) by simp_all

lemma fastd_lex_init_positioned:
  "positioned (fastd_lex_init f) \<and> rest_input (fastd_lex_init f) = pending f
   \<and> \<not> needspace (fastd_lex_init f)
   \<and> io_failed (fastd_lex_init f) = (ferror f \<or> fails f)
   \<and> start (fastd_lex_init f) = 0 \<and> tok_len (fastd_lex_init f) = 0"
  by (auto simp: fastd_lex_init_def advance_def compact_def fread_def Let_def positioned_def
      window_inv_def rest_input_def io_failed_def sizeof_buffer_def min_def)

lemma consume_positioned:
  assumes "positioned lx"
  shows "positioned (consume lx ns) \<and> rest_input (consume lx ns) = rest_input lx
    \<and> tok_len (consume lx ns) = 0 \<and> needspace (consume lx ns) = ns
    \<and> infile (consume lx ns) = infile lx"
  using assms
  by (simp add: consume_def positioned_def window_inv_def rest_input_def)

lemma next_consume_positioned:
  assumes "positioned lx" "rest_input lx = c # cs"
  shows "positioned (snd (next_consume (loc, lx) ns))
    \<and> rest_input (snd (next_consume (loc, lx) ns)) = cs
    \<and> needspace (snd (next_consume (loc, lx) ns)) = ns
    \<and> tok_len (snd (next_consume (loc, lx) ns)) = 0
    \<and> io_failed (snd (next_consume (loc, lx) ns)) = io_failed lx
    \<and> (cs = [] \<longrightarrow> ferror (infile (snd (next_consume (loc, lx) ns))) = io_failed lx)"
  using lex_next_move_all [OF assms, of loc]
    consume_positioned [of "snd (snd (lex_next (loc, lx) True))" ns]
  by (simp add: next_consume_def io_failed_def)

subsection \<open>String literals\<close>

lemma parse_string_loop_closed:
  assumes "string_body body" "positioned lx" "rest_input lx = c0 # body @ DQUOTE # rest"
  shows "fst (parse_string_loop buf (loc, lx)) = Inr (buf @ unescape body)
    \<and> positioned (snd (snd (parse_string_loop buf (loc, lx))))
    \<and> rest_input (snd (snd (parse_string_loop buf (loc, lx)))) = DQUOTE # rest
    \<and> needspace (snd (snd (parse_string_loop buf (loc, lx)))) = needspace lx
    \<and> io_failed (snd (snd (parse_string_loop buf (loc, lx)))) = io_failed lx"
  using assms
proof (induction body arbitrary: buf loc lx c0 rule: string_body.induct)
  case 1
  obtain ok loc1 lx1 where n: "lex_next (loc, lx) True = (ok, loc1, lx1)"
    by (cases "lex_next (loc, lx) True")
  from "1.prems" have r: "rest_input lx = c0 # DQUOTE # rest" by simp
  note f = lex_next_move [OF "1.prems"(2) r n]
  from positioned_current(1) [OF f(2) f(3)] f show ?case
    by (simp add: parse_string_loop.simps [of buf "(loc, lx)"] n cur_def)
next
  case (2 c cs)
  obtain ok loc1 lx1 where n: "lex_next (loc, lx) True = (ok, loc1, lx1)"
    by (cases "lex_next (loc, lx) True")
  from "2.prems" have r: "rest_input lx = c0 # c # cs @ DQUOTE # rest" by simp
  note f = lex_next_move [OF "2.prems"(2) r n]
  note c1 = positioned_current(1) [OF f(2) f(3)]
  from "2.prems"(1) have nq: "c \<noteq> DQUOTE" by (simp split: if_splits)
  show ?case
  proof (cases "c = BACKSLASH")
    case False
    with "2.prems"(1) nq have sb: "string_body cs" by simp
    from "2.IH"(2) [OF nq False sb f(2) f(3), of "buf @ [c]" loc1] f c1 nq False
    show ?thesis
      by (simp add: parse_string_loop.simps [of buf "(loc, lx)"] n cur_def)
  next
    case True
    with "2.prems"(1) nq obtain d ds where cs: "cs = d # ds" and sb: "string_body ds"
      by (cases cs) simp_all
    obtain ok2 loc2 lx2 where n2: "lex_next (loc1, lx1) True = (ok2, loc2, lx2)"
      by (cases "lex_next (loc1, lx1) True")
    from f(3) cs have r1: "rest_input lx1 = c # d # ds @ DQUOTE # rest" by simp
    note g = lex_next_move [OF f(2) r1 n2]
    note c2 = positioned_current(1) [OF g(2) g(3)]
    note ih = "2.IH"(1) [OF nq True cs sb g(2) g(3)]
    from ih [of buf loc2] ih [of "buf @ [d]" loc2] f g c1 c2 nq True cs
    show ?thesis
      by (simp add: parse_string_loop.simps [of buf "(loc, lx)"] n n2 cur_def)
  qed
qed

lemma parse_string_loop_open:
  assumes "unquoted body" "positioned lx" "rest_input lx = c0 # body"
  shows "fst (parse_string_loop buf (loc, lx))
         = Inl (if io_failed lx then IOError else UnterminatedString)"
  using assms
proof (induction body arbitrary: buf loc lx c0 rule: unquoted.induct)
  case 1
  obtain ok loc1 lx1 where n: "lex_next (loc, lx) True = (ok, loc1, lx1)"
    by (cases "lex_next (loc, lx) True")
  note f = lex_next_move [OF "1.prems"(2,3) n]
  from f show ?case
    by (simp add: parse_string_loop.simps [of buf "(loc, lx)"] n unterminated_string_def)
next
  case (2 c cs)
  obtain ok loc1 lx1 where n: "lex_next (loc, lx) True = (ok, loc1, lx1)"
    by (cases "lex_next (loc, lx) True")
  note f = lex_next_move [OF "2.prems"(2,3) n]
  note c1 = positioned_current(1) [OF f(2) f(3)]
  from "2.prems"(1) have nq: "c \<noteq> DQUOTE" by (simp split: if_splits)
  show ?case
  proof (cases "c = BACKSLASH")
    case False
    with "2.prems"(1) nq have sb: "unquoted cs" by simp
    from "2.IH"(2) [OF nq False sb f(2) f(3), of "buf @ [c]" loc1] f c1 nq False
    show ?thesis
      by (simp add: parse_string_loop.simps [of buf "(loc, lx)"] n cur_def)
  next
    case True
    obtain ok2 loc2 lx2 where n2: "lex_next (loc1, lx1) True = (ok2, loc2, lx2)"
      by (cases "lex_next (loc1, lx1) True")
    note g = lex_next_move [OF f(2) f(3) n2]
    show ?thesis
    proof (cases cs)
      case Nil
      with f g c1 nq True show ?thesis
        by (simp add: parse_string_loop.simps [of buf "(loc, lx)"] n n2 cur_def
            unterminated_string_def)
    next
      case (Cons d ds)
      with True nq "2.prems"(1) have sb: "unquoted ds" by simp
      from g(3) Cons have r2: "rest_input lx2 = d # ds" by simp
      note c2 = positioned_current(1) [OF g(2) r2]
      note ih = "2.IH"(1) [OF nq True Cons sb g(2) r2]
      from ih [of buf loc2] ih [of "buf @ [d]" loc2] f g c1 c2 nq True Cons
      show ?thesis
        by (simp add: parse_string_loop.simps [of buf "(loc, lx)"] n n2 cur_def)
    qed
  qed
qed

lemma fastd_lex_dquote:
  assumes "positioned lx" "rest_input lx = DQUOTE # cs"
  shows "fastd_lex libc (loc, lx)
         = parse_string (loc\<lparr>first_line := last_line loc, first_column := last_column loc + 1\<rparr>, lx)"
  using positioned_current [OF assms]
  by (simp add: fastd_lex.simps [of libc "(loc, lx)"] cur_def Let_def DQUOTE_def NEWLINE_def)

lemma fastd_lex_empty:
  assumes "positioned lx" "rest_input lx = []" "tok_len lx = 0"
  shows "fastd_lex libc (loc, lx) = (lex_end (loc, lx), loc, lx)"
  using positioned_empty [OF assms]
  by (simp add: fastd_lex.simps [of libc "(loc, lx)"])

lemma parse_string_closed:
  assumes "string_body body" "positioned lx" "rest_input lx = DQUOTE # body @ DQUOTE # rest"
    "\<not> needspace lx"
  shows "fst (parse_string (loc, lx)) = Token (TOK_STRING (unescape body))
    \<and> positioned (snd (snd (parse_string (loc, lx))))
    \<and> rest_input (snd (snd (parse_string (loc, lx)))) = rest
    \<and> needspace (snd (snd (parse_string (loc, lx))))
    \<and> tok_len (snd (snd (parse_string (loc, lx)))) = 0
    \<and> io_failed (snd (snd (parse_string (loc, lx)))) = io_failed lx
    \<and> (rest = [] \<longrightarrow> ferror (infile (snd (snd (parse_string (loc, lx))))) = io_failed lx)"
proof -
  obtain r loc1 lx1 where p: "parse_string_loop [] (loc, lx) = (r, loc1, lx1)"
    by (cases "parse_string_loop [] (loc, lx)")
  from parse_string_loop_closed [OF assms(1-3), of "[]" loc] p
  have f: "r = Inr (unescape body)" "positioned lx1" "rest_input lx1 = DQUOTE # rest"
    "io_failed lx1 = io_failed lx"
    by simp_all
  from next_consume_positioned [OF f(2,3), of loc1 True] f assms(4) show ?thesis
    by (simp add: parse_string_def fastd_string_stack_dupn_def p)
qed

subsection \<open>Block comments\<close>

lemma closes_sublist:
  "closes prev body \<longleftrightarrow>
     (prev = CHR ''*'' \<and> body \<noteq> [] \<and> hd body = CHR ''/'') \<or> sublist ''*/'' body"
proof (induction body arbitrary: prev)
  case Nil
  show ?case by simp
next
  case (Cons c cs)
  have "prefix ''*/'' (c # cs) \<longleftrightarrow> c = CHR ''*'' \<and> cs \<noteq> [] \<and> hd cs = CHR ''/''"
    by (cases cs) auto
  with Cons [of c] show ?case
    by (auto simp: sublist_Cons_right)
qed

lemma consume_comment_loop_open:
  assumes "\<not> closes prev body" "positioned lx" "rest_input lx = c0 # body"
  shows "fst (consume_comment_loop prev (loc, lx))
         = Some (if io_failed lx then IOError else UnterminatedComment)"
  using assms
proof (induction body arbitrary: prev loc lx c0)
  case Nil
  obtain ok loc1 lx1 where n: "lex_next (loc, lx) True = (ok, loc1, lx1)"
    by (cases "lex_next (loc, lx) True")
  note f = lex_next_move [OF Nil.prems(2,3) n]
  from f show ?case
    by (simp add: consume_comment_loop.simps [of prev "(loc, lx)"] n)
next
  case (Cons c cs)
  obtain ok loc1 lx1 where n: "lex_next (loc, lx) True = (ok, loc1, lx1)"
    by (cases "lex_next (loc, lx) True")
  note f = lex_next_move [OF Cons.prems(2,3) n]
  note c1 = positioned_current(1) [OF f(2) f(3)]
  from Cons.prems(1) have nc: "\<not> (prev = CHR ''*'' \<and> c = CHR ''/'')" "\<not> closes c cs"
    by simp_all
  from Cons.IH [OF nc(2) f(2) f(3), of loc1] f c1 nc(1) show ?case
    by (auto simp: consume_comment_loop.simps [of prev "(loc, lx)"] n cur_def)
qed

lemma fastd_lex_block_comment_open:
  assumes "\<not> sublist ''*/'' body" "positioned lx" "rest_input lx = ''/*'' @ body"
  shows "fst (fastd_lex libc (loc, lx))
         = Error (if io_failed lx then IOError else UnterminatedComment)"
proof -
  let ?loc0 = "loc\<lparr>first_line := last_line loc, first_column := last_column loc + 1\<rparr>"
  from assms(3) have r: "rest_input lx = CHR ''/'' # CHR ''*'' # body" by simp
  note c0 = positioned_current [OF assms(2) r]
  obtain ok loc1 lx1 where n: "lex_next (?loc0, lx) True = (ok, loc1, lx1)"
    by (cases "lex_next (?loc0, lx) True")
  note f = lex_next_move [OF assms(2) r n]
  note c1 = positioned_current(1) [OF f(2) f(3)]
  from assms(1) have "\<not> closes NUL body"
    by (simp add: closes_sublist NUL_def)
  from consume_comment_loop_open [OF this f(2) f(3), of loc1] f(5)
  have "fst (consume_comment (loc1, lx1)) = Some (if io_failed lx then IOError else UnterminatedComment)"
    by (simp add: consume_comment_def)
  with c0 c1 f(1) show ?thesis
    by (cases "consume_comment (loc1, lx1)")
       (simp add: fastd_lex.simps [of libc "(loc, lx)"] cur_def Let_def NEWLINE_def n)
qed

lemma parse_string_open:
  assumes "unquoted body" "positioned lx" "rest_input lx = DQUOTE # body" "\<not> needspace lx"
  shows "fst (parse_string (loc, lx)) = Error (if io_failed lx then IOError else UnterminatedString)"
  using parse_string_loop_open [OF assms(1-3), of "[]" loc] assms(4)
  by (cases "parse_string_loop [] (loc, lx)") (simp add: parse_string_def)

subsection \<open>Escaped texts\<close>

lemma escape_Cons:
  "escape (c # s) = (if c = DQUOTE \<or> c = BACKSLASH then [BACKSLASH, c] else [c]) @ escape s"
  by (simp add: escape_def)

lemma escape_Nil: "escape [] = []"
  by (simp add: escape_def)

lemma string_body_escape: "string_body (escape s)"
proof (induction s)
  case Nil
  show ?case by (simp add: escape_Nil)
next
  case (Cons c s)
  then show ?case
    by (simp add: escape_Cons DQUOTE_def BACKSLASH_def)
qed

lemma unescape_escape: "unescape (escape s) = s"
proof (induction s)
  case Nil
  show ?case by (simp add: escape_Nil)
next
  case (Cons c s)
  then show ?case
    by (simp add: escape_Cons DQUOTE_def BACKSLASH_def NEWLINE_def)
qed

lemma string_body_append:
  "string_body pre \<Longrightarrow> string_body (pre @ xs) = string_body xs"
proof (induction pre rule: string_body.induct)
  case 1
  show ?case by simp
next
  case (2 c cs)
  from "2.prems" have nq: "c \<noteq> DQUOTE" by (simp split: if_splits)
  show ?case
  proof (cases "c = BACKSLASH")
    case False
    with "2.prems" nq "2.IH"(2) show ?thesis by simp
  next
    case True
    with "2.prems" nq obtain d ds where cs: "cs = d # ds" and sb: "string_body ds"
      by (cases cs) simp_all
    from "2.IH"(1) [OF nq True cs sb] nq True cs show ?thesis by simp
  qed
qed

lemma unescape_append:
  "string_body pre \<Longrightarrow> unescape (pre @ xs) = unescape pre @ unescape xs"
proof (induction pre rule: string_body.induct)
  case 1
  show ?case by simp
next
  case (2 c cs)
  from "2.prems" have nq: "c \<noteq> DQUOTE" by (simp split: if_splits)
  show ?case
  proof (cases "c = BACKSLASH")
    case False
    with "2.prems" nq "2.IH"(2) show ?thesis by simp
  next
    case True
    with "2.prems" nq obtain d ds where cs: "cs = d # ds" and sb: "string_body ds"
      by (cases cs) simp_all
    from "2.IH"(1) [OF nq True cs sb] nq True cs show ?thesis by simp
  qed
qed

lemma lex_text_string:
  assumes "string_body body"
  shows "fst (lex_text libc loc (DQUOTE # body @ DQUOTE # rest)) = Token (TOK_STRING (unescape body))
    \<and> positioned (snd (snd (lex_text libc loc (DQUOTE # body @ DQUOTE # rest))))
    \<and> rest_input (snd (snd (lex_text libc loc (DQUOTE # body @ DQUOTE # rest)))) = rest
    \<and> tok_len (snd (snd (lex_text libc loc (DQUOTE # body @ DQUOTE # rest)))) = 0
    \<and> (rest = [] \<longrightarrow> \<not> ferror (infile (snd (snd (lex_text libc loc (DQUOTE # body @ DQUOTE # rest))))))"
proof -
  let ?lx = "fastd_lex_init (stream_of (DQUOTE # body @ DQUOTE # rest))"
  let ?loc = "loc\<lparr>first_line := last_line loc, first_column := last_column loc + 1\<rparr>"
  have i: "positioned ?lx" "rest_input ?lx = DQUOTE # body @ DQUOTE # rest" "\<not> needspace ?lx"
    "\<not> io_failed ?lx"
    using fastd_lex_init_positioned [of "stream_of (DQUOTE # body @ DQUOTE # rest)"]
    by (simp_all add: stream_of_def)
  have e: "lex_text libc loc (DQUOTE # body @ DQUOTE # rest) = parse_string (?loc, ?lx)"
    unfolding lex_text_def by (rule fastd_lex_dquote [OF i(1,2)])
  from parse_string_closed [OF assms i(1,2,3), of ?loc] i(4) show ?thesis
    unfolding e by blast
qed

subsection \<open>White space and comments before a token\<close>

lemma fastd_lex_blank:
  assumes "positioned lx" "rest_input lx = c # cs" "is_blank c"
  shows "fastd_lex libc (loc, lx)
         = fastd_lex libc (next_consume
             (loc\<lparr>first_line := last_line loc, first_column := last_column loc + 1\<rparr>, lx) False)"
  using positioned_current [OF assms(1,2)] assms(3)
  by (simp add: fastd_lex.simps [of libc "(loc, lx)"] cur_def Let_def is_blank_def del: insert_iff)

lemma scan_line:
  assumes "NEWLINE \<notin> set body" "positioned lx" "rest_input lx = c0 # body @ NEWLINE # rest"
  shows "positioned (snd (scan_loop True (\<lambda>c. c \<noteq> NEWLINE) (loc, lx)))
    \<and> rest_input (snd (scan_loop True (\<lambda>c. c \<noteq> NEWLINE) (loc, lx))) = NEWLINE # rest
    \<and> io_failed (snd (scan_loop True (\<lambda>c. c \<noteq> NEWLINE) (loc, lx))) = io_failed lx"
  using assms
proof (induction body arbitrary: c0 loc lx)
  case Nil
  obtain ok loc1 lx1 where n: "lex_next (loc, lx) True = (ok, loc1, lx1)"
    by (cases "lex_next (loc, lx) True")
  from Nil.prems have r: "rest_input lx = c0 # NEWLINE # rest" by simp
  note f = lex_next_move [OF Nil.prems(2) r n]
  from positioned_current(1) [OF f(2) f(3)] f show ?case
    by (simp add: scan_loop.simps [of True _ "(loc, lx)"] n cur_def)
next
  case (Cons c body)
  obtain ok loc1 lx1 where n: "lex_next (loc, lx) True = (ok, loc1, lx1)"
    by (cases "lex_next (loc, lx) True")
  from Cons.prems have r: "rest_input lx = c0 # c # body @ NEWLINE # rest"
    and nn: "c \<noteq> NEWLINE" "NEWLINE \<notin> set body"
    by auto
  note f = lex_next_move [OF Cons.prems(2) r n]
  from f(3) have r1: "rest_input lx1 = c # body @ NEWLINE # rest" by simp
  from Cons.IH [OF nn(2) f(2) r1, of loc1] positioned_current(1) [OF f(2) f(3)] f nn(1)
  show ?case
    by (simp add: scan_loop.simps [of True _ "(loc, lx)"] n cur_def)
qed

lemma line_comment_skip:
  assumes "NEWLINE \<notin> set body" "positioned lx" "rest_input lx = c0 # body @ NEWLINE # rest"
  shows "positioned (snd (line_comment (loc, lx)))
    \<and> rest_input (snd (line_comment (loc, lx))) = rest
    \<and> \<not> needspace (snd (line_comment (loc, lx)))
    \<and> tok_len (snd (line_comment (loc, lx))) = 0
    \<and> io_failed (snd (line_comment (loc, lx))) = io_failed lx"
proof -
  obtain loc1 lx1 where s: "scan_loop True (\<lambda>c. c \<noteq> NEWLINE) (loc, lx) = (loc1, lx1)"
    by (cases "scan_loop True (\<lambda>c. c \<noteq> NEWLINE) (loc, lx)")
  from scan_line [OF assms, of loc] s
  have f: "positioned lx1" "rest_input lx1 = NEWLINE # rest" "io_failed lx1 = io_failed lx"
    by simp_all
  from next_consume_positioned [OF f(1,2), of loc1 False] f(3) show ?thesis
    by (simp add: line_comment_def s)
qed

lemma fastd_lex_hash:
  assumes "positioned lx" "rest_input lx = CHR ''#'' # cs"
  shows "fastd_lex libc (loc, lx)
         = fastd_lex libc (line_comment
             (loc\<lparr>first_line := last_line loc, first_column := last_column loc + 1\<rparr>, lx))"
  using positioned_current [OF assms]
  by (simp add: fastd_lex.simps [of libc "(loc, lx)"] cur_def Let_def NEWLINE_def)

lemma fastd_lex_slashes:
  assumes "positioned lx" "rest_input lx = CHR ''/'' # CHR ''/'' # cs"
    "lex_next (loc\<lparr>first_line := last_line loc, first_column := last_column loc + 1\<rparr>, lx) True
     = (ok, loc1, lx1)"
  shows "fastd_lex libc (loc, lx) = fastd_lex libc (line_comment (loc1, lx1))"
proof -
  note f = lex_next_move [OF assms]
  from positioned_current [OF assms(1,2)] positioned_current(1) [OF f(2) f(3)] f(1)
  show ?thesis
    by (simp add: fastd_lex.simps [of libc "(loc, lx)"] cur_def Let_def NEWLINE_def assms(3))
qed

lemma consume_comment_loop_closed:
  assumes "\<not> closes prev (body @ ''*'')" "positioned lx"
    "rest_input lx = c0 # body @ ''*/'' @ rest"
  shows "fst (consume_comment_loop prev (loc, lx)) = None
    \<and> positioned (snd (snd (consume_comment_loop prev (loc, lx))))
    \<and> rest_input (snd (snd (consume_comment_loop prev (loc, lx)))) = rest
    \<and> \<not> needspace (snd (snd (consume_comment_loop prev (loc, lx))))
    \<and> tok_len (snd (snd (consume_comment_loop prev (loc, lx)))) = 0
    \<and> io_failed (snd (snd (consume_comment_loop prev (loc, lx)))) = io_failed lx"
  using assms
proof (induction body arbitrary: prev c0 loc lx)
  case Nil
  obtain ok loc1 lx1 where n: "lex_next (loc, lx) True = (ok, loc1, lx1)"
    by (cases "lex_next (loc, lx) True")
  from Nil.prems have r: "rest_input lx = c0 # CHR ''*'' # CHR ''/'' # rest" by simp
  note f = lex_next_move [OF Nil.prems(2) r n]
  note c1 = positioned_current(1) [OF f(2) f(3)]
  obtain ok2 loc2 lx2 where n2: "lex_next (loc1, lx1) True = (ok2, loc2, lx2)"
    by (cases "lex_next (loc1, lx1) True")
  note g = lex_next_move [OF f(2) f(3) n2]
  note c2 = positioned_current(1) [OF g(2) g(3)]
  from next_consume_positioned [OF g(2) g(3), of loc2 False] f g c1 c2 show ?case
    by (simp add: consume_comment_loop.simps [of prev "(loc, lx)"]
        consume_comment_loop.simps [of "CHR ''*''" "(loc1, lx1)"] n n2 cur_def)
next
  case (Cons c body)
  obtain ok loc1 lx1 where n: "lex_next (loc, lx) True = (ok, loc1, lx1)"
    by (cases "lex_next (loc, lx) True")
  from Cons.prems have r: "rest_input lx = c0 # c # body @ ''*/'' @ rest" by simp
  note f = lex_next_move [OF Cons.prems(2) r n]
  note c1 = positioned_current(1) [OF f(2) f(3)]
  from Cons.prems(1) have nc: "\<not> (prev = CHR ''*'' \<and> c = CHR ''/'')" "\<not> closes c (body @ ''*'')"
    by simp_all
  from f(3) have r1: "rest_input lx1 = c # body @ ''*/'' @ rest" by simp
  from Cons.IH [OF nc(2) f(2) r1, of loc1] f c1 nc(1) show ?case
    by (auto simp: consume_comment_loop.simps [of prev "(loc, lx)"] n cur_def)
qed

lemma fastd_lex_block_comment_closed:
  assumes "\<not> sublist ''*/'' (body @ ''*'')" "positioned lx"
    "rest_input lx = ''/*'' @ body @ ''*/'' @ rest"
  shows "\<exists>loc1 lx1. fastd_lex libc (loc, lx) = fastd_lex libc (loc1, lx1)
    \<and> positioned lx1 \<and> rest_input lx1 = rest \<and> \<not> needspace lx1 \<and> tok_len lx1 = 0
    \<and> io_failed lx1 = io_failed lx"
proof -
  let ?loc0 = "loc\<lparr>first_line := last_line loc, first_column := last_column loc + 1\<rparr>"
  from assms(3) have r: "rest_input lx = CHR ''/'' # CHR ''*'' # body @ ''*/'' @ rest" by simp
  note c0 = positioned_current [OF assms(2) r]
  obtain ok loc1 lx1 where n: "lex_next (?loc0, lx) True = (ok, loc1, lx1)"
    by (cases "lex_next (?loc0, lx) True")
  note f = lex_next_move [OF assms(2) r n]
  note c1 = positioned_current(1) [OF f(2) f(3)]
  from assms(1) have "\<not> closes NUL (body @ ''*'')"
    by (simp add: closes_sublist NUL_def)
  note cc = consume_comment_loop_closed [OF this f(2) f(3), of loc1]
  obtain e loc2 lx2 where c: "consume_comment (loc1, lx1) = (e, loc2, lx2)"
    by (cases "consume_comment (loc1, lx1)")
  with cc f(5) have g: "e = None" "positioned lx2" "rest_input lx2 = rest" "\<not> needspace lx2"
    "tok_len lx2 = 0" "io_failed lx2 = io_failed lx"
    by (simp_all add: consume_comment_def)
  from c0 c1 f(1) g(1) have "fastd_lex libc (loc, lx) = fastd_lex libc (loc2, lx2)"
    by (simp add: fastd_lex.simps [of libc "(loc, lx)"] cur_def Let_def NEWLINE_def n c)
  with g show ?thesis by blast
qed

lemma fastd_lex_skipped:
  assumes "skipped pre" "positioned lx" "rest_input lx = pre @ rest"
  shows "\<exists>loc1 lx1. fastd_lex libc (loc, lx) = fastd_lex libc (loc1, lx1)
    \<and> positioned lx1 \<and> rest_input lx1 = rest \<and> io_failed lx1 = io_failed lx
    \<and> (if pre = [] then lx1 = lx else \<not> needspace lx1 \<and> tok_len lx1 = 0)"
  using assms
proof (induction pre arbitrary: loc lx rule: skipped.induct)
  case nothing
  then show ?case by auto
next
  case (blank c pre)
  let ?loc = "loc\<lparr>first_line := last_line loc, first_column := last_column loc + 1\<rparr>"
  obtain loc1 lx1 where n: "next_consume (?loc, lx) False = (loc1, lx1)"
    by (cases "next_consume (?loc, lx) False")
  from blank.prems have r: "rest_input lx = c # pre @ rest" by simp
  from next_consume_positioned [OF blank.prems(1) r, of ?loc False] n
  have f: "positioned lx1" "rest_input lx1 = pre @ rest" "\<not> needspace lx1" "tok_len lx1 = 0"
    "io_failed lx1 = io_failed lx"
    by simp_all
  have e: "fastd_lex libc (loc, lx) = fastd_lex libc (loc1, lx1)"
    using fastd_lex_blank [OF blank.prems(1) r blank.hyps(1), of libc loc] n by simp
  from blank.IH [OF f(1,2), of loc1] e f show ?case
    by (auto split: if_splits)
next
  case (hash_comment body pre)
  let ?loc = "loc\<lparr>first_line := last_line loc, first_column := last_column loc + 1\<rparr>"
  obtain loc1 lx1 where n: "line_comment (?loc, lx) = (loc1, lx1)"
    by (cases "line_comment (?loc, lx)")
  from hash_comment.prems have r: "rest_input lx = CHR ''#'' # body @ NEWLINE # pre @ rest"
    by simp
  from line_comment_skip [OF hash_comment.hyps(1) hash_comment.prems(1) r, of ?loc] n
  have f: "positioned lx1" "rest_input lx1 = pre @ rest" "\<not> needspace lx1" "tok_len lx1 = 0"
    "io_failed lx1 = io_failed lx"
    by simp_all
  have e: "fastd_lex libc (loc, lx) = fastd_lex libc (loc1, lx1)"
    using fastd_lex_hash [OF hash_comment.prems(1) r, of libc loc] n by simp
  from hash_comment.IH [OF f(1,2), of loc1] e f show ?case
    by (auto split: if_splits)
next
  case (slash_comment body pre)
  let ?loc = "loc\<lparr>first_line := last_line loc, first_column := last_column loc + 1\<rparr>"
  obtain ok loc0 lx0 where n0: "lex_next (?loc, lx) True = (ok, loc0, lx0)"
    by (cases "lex_next (?loc, lx) True")
  obtain loc1 lx1 where n: "line_comment (loc0, lx0) = (loc1, lx1)"
    by (cases "line_comment (loc0, lx0)")
  from slash_comment.prems
  have r: "rest_input lx = CHR ''/'' # CHR ''/'' # body @ NEWLINE # pre @ rest"
    by simp
  note g = lex_next_move [OF slash_comment.prems(1) r n0]
  from line_comment_skip [OF slash_comment.hyps(1) g(2) g(3), of loc0] n g(5)
  have f: "positioned lx1" "rest_input lx1 = pre @ rest" "\<not> needspace lx1" "tok_len lx1 = 0"
    "io_failed lx1 = io_failed lx"
    by simp_all
  have e: "fastd_lex libc (loc, lx) = fastd_lex libc (loc1, lx1)"
    using fastd_lex_slashes [OF slash_comment.prems(1) r n0, of libc] n by simp
  from slash_comment.IH [OF f(1,2), of loc1] e f show ?case
    by (auto split: if_splits)
next
  case (block_comment body pre)
  from block_comment.prems have r: "rest_input lx = ''/*'' @ body @ ''*/'' @ pre @ rest"
    by simp
  from fastd_lex_block_comment_closed [OF block_comment.hyps(1) block_comment.prems(1) r, of libc loc]
  obtain loc1 lx1 where f: "fastd_lex libc (loc, lx) = fastd_lex libc (loc1, lx1)"
    "positioned lx1" "rest_input lx1 = pre @ rest" "\<not> needspace lx1" "tok_len lx1 = 0"
    "io_failed lx1 = io_failed lx"
    by blast
  from block_comment.IH [OF f(2,3), of loc1] f show ?case
    by (auto split: if_splits)
qed

lemma parse_string_needspace:
  assumes "positioned lx" "rest_input lx = DQUOTE # body" "needspace lx"
  shows "fst (fastd_lex libc (loc, lx)) = Error SyntaxError"
  using assms(3) by (simp add: fastd_lex_dquote [OF assms(1,2)] parse_string_def)

subsection \<open>The window invariant\<close>

lemma compact_inv: "window_inv lx \<Longrightarrow> window_inv (compact lx)"
  by (auto simp: window_inv_def compact_def)

lemma advance_inv: "window_inv lx \<Longrightarrow> window_inv (snd (advance lx))"
  by (auto simp: window_inv_def advance_def compact_def fread_def Let_def split: prod.splits)

lemma lex_next_inv: "window_inv (snd s) \<Longrightarrow> window_inv (snd (snd (lex_next s move)))"
proof -
  assume a: "window_inv (snd s)"
  show ?thesis
  proof (cases "start (snd s) + tok_len (snd s) < end_pos (snd s)")
    case False
    with a show ?thesis by (simp add: lex_next_stuck)
  next
    case True
    with a have "window_inv ((snd s)\<lparr>start := start (snd s) + 1\<rparr>)"
      "window_inv ((snd s)\<lparr>tok_len := tok_len (snd s) + 1\<rparr>)"
      by (simp_all add: window_inv_def)
    with True advance_inv show ?thesis
      by (simp add: lex_next_def Let_def)
  qed
qed

lemma consume_inv: "window_inv lx \<Longrightarrow> window_inv (consume lx ns)"
  by (simp add: window_inv_def consume_def)

lemma next_consume_inv: "window_inv (snd s) \<Longrightarrow> window_inv (snd (next_consume s ns))"
  by (simp add: next_consume_def consume_inv lex_next_inv)

lemma scan_loop_inv: "window_inv (snd s) \<Longrightarrow> window_inv (snd (scan_loop move p s))"
proof (induction move p s rule: scan_loop.induct)
  case (1 move p s)
  obtain ok s1 where n: "lex_next s move = (ok, s1)"
    by (cases "lex_next s move")
  from lex_next_inv [OF "1.prems", of move] n have i: "window_inv (snd s1)" by simp
  show ?case
  proof (cases "ok \<and> p (cur s1)")
    case True
    with "1.IH" [OF n [symmetric] _ _ i] show ?thesis
      by (simp add: scan_loop.simps [of move p s] n)
  next
    case False
    with i show ?thesis
      by (auto simp: scan_loop.simps [of move p s] n)
  qed
qed

lemma number_loop_inv: "window_inv (snd s) \<Longrightarrow> window_inv (snd (snd (number_loop s)))"
proof (induction s rule: number_loop.induct)
  case (1 s)
  obtain ok s1 where n: "lex_next s False = (ok, s1)"
    by (cases "lex_next s False")
  from lex_next_inv [OF "1.prems", of False] n have i: "window_inv (snd s1)" by simp
  show ?case
  proof (cases "ok \<and> cur s1 \<noteq> CHR ''.'' \<and> is_digit (cur s1)")
    case True
    with "1.IH" [OF n [symmetric] _ _ _ i] show ?thesis
      by (simp add: number_loop.simps [of s] n)
  next
    case False
    with i show ?thesis
      by (auto simp: number_loop.simps [of s] n)
  qed
qed

lemma consume_comment_loop_inv:
  "window_inv (snd s) \<Longrightarrow> window_inv (snd (snd (consume_comment_loop prev s)))"
proof (induction prev s rule: consume_comment_loop.induct)
  case (1 prev s)
  obtain ok s1 where n: "lex_next s True = (ok, s1)"
    by (cases "lex_next s True")
  from lex_next_inv [OF "1.prems", of True] n have i: "window_inv (snd s1)" by simp
  show ?case
  proof (cases "ok \<and> \<not> (prev = CHR ''*'' \<and> cur s1 = CHR ''/'')")
    case True
    with "1.IH" [OF n [symmetric] _ _ i] show ?thesis
      by (auto simp: consume_comment_loop.simps [of prev s] n)
  next
    case False
    with i next_consume_inv [OF i, of False] show ?thesis
      by (auto simp: consume_comment_loop.simps [of prev s] n)
  qed
qed

lemma parse_string_loop_inv:
  "window_inv (snd s) \<Longrightarrow> window_inv (snd (snd (parse_string_loop buf s)))"
proof (induction buf s rule: parse_string_loop.induct)
  case (1 buf s)
  obtain ok s1 where n: "lex_next s True = (ok, s1)"
    by (cases "lex_next s True")
  from lex_next_inv [OF "1.prems", of True] n have i: "window_inv (snd s1)" by simp
  obtain ok2 s2 where n2: "lex_next s1 True = (ok2, s2)"
    by (cases "lex_next s1 True")
  from lex_next_inv [OF i, of True] n2 have i2: "window_inv (snd s2)" by simp
  note ih = "1.IH" [OF n [symmetric]]
  show ?case
  proof (cases "ok \<and> cur s1 \<noteq> DQUOTE")
    case False
    with i show ?thesis
      by (auto simp: parse_string_loop.simps [of buf s] n)
  next
    case True
    note t = this
    show ?thesis
    proof (cases "cur s1 = BACKSLASH")
      case False
      with t ih(3) [OF _ _ _ i] show ?thesis
        by (simp add: parse_string_loop.simps [of buf s] n)
    next
      case True
      with t i2 ih(1) [OF _ _ _ n2 [symmetric] _ _ i2] ih(2) [OF _ _ _ n2 [symmetric] _ _ i2]
      show ?thesis
        by (auto simp: parse_string_loop.simps [of buf s] n n2)
    qed
  qed
qed

lemma parse_string_inv: "window_inv (snd s) \<Longrightarrow> window_inv (snd (snd (parse_string s)))"
  using parse_string_loop_inv [of s "[]"]
    next_consume_inv [of "snd (parse_string_loop [] s)" True]
  by (auto simp: parse_string_def split: prod.splits sum.splits)

lemma parse_ipv6_address_inv:
  "window_inv (snd s) \<Longrightarrow> window_inv (snd (snd (parse_ipv6_address libc s)))"
proof -
  assume a: "window_inv (snd s)"
  let ?s1 = "scan_loop False (\<lambda>c. is_digit c \<or> c = CHR '':'') s"
  let ?lx1 = "(snd ?s1)\<lparr>buffer := (buffer (snd ?s1))[start (snd ?s1) + tok_len (snd ?s1) := NUL]\<rparr>"
  from scan_loop_inv [OF a] have i: "window_inv (snd ?s1)" .
  then have "window_inv (snd (fst ?s1, ?lx1))" by (simp add: window_inv_def)
  from next_consume_inv [OF this, of True] i a show ?thesis
    by (auto simp: parse_ipv6_address_def Let_def window_inv_def split: option.splits)
qed

lemma parse_ipv4_address_inv:
  "window_inv (snd s) \<Longrightarrow> window_inv (snd (snd (parse_ipv4_address libc s)))"
  using scan_loop_inv [of s False "\<lambda>c. is_digit c \<or> c = CHR ''.''"]
  by (auto simp: parse_ipv4_address_def Let_def split: option.splits)

lemma parse_number_inv:
  "window_inv (snd s) \<Longrightarrow> window_inv (snd (snd (parse_number libc s)))"
  using number_loop_inv [of s] parse_ipv4_address_inv [of "snd (number_loop s)" libc]
  by (auto simp: parse_number_def split: prod.splits)

lemma parse_keyword_inv:
  "window_inv (snd s) \<Longrightarrow> window_inv (snd (snd (parse_keyword s)))"
  using scan_loop_inv [of s False "\<lambda>c. is_lower c \<or> is_digit c \<or> c = CHR ''-''"]
  by (auto simp: parse_keyword_def Let_def consume_inv split: option.splits)

lemma line_comment_inv: "window_inv (snd s) \<Longrightarrow> window_inv (snd (line_comment s))"
  by (simp add: line_comment_def next_consume_inv scan_loop_inv)

lemma fastd_lex_init_inv: "window_inv (fastd_lex_init f)"
  unfolding fastd_lex_init_def by (rule advance_inv) (simp add: window_inv_def)

lemma fastd_lex_inv:
  "window_inv (snd s) \<Longrightarrow> window_inv (snd (snd (fastd_lex libc s)))"
proof (induction libc s rule: fastd_lex.induct)
  case (1 libc s)
  let ?s0 = "((fst s)\<lparr>first_line := last_line (fst s),
                        first_column := last_column (fst s) + 1\<rparr>, snd s)"
  from "1.prems" have i0: "window_inv (snd ?s0)" by simp
  obtain ok s1 where n: "lex_next ?s0 True = (ok, s1)"
    by (cases "lex_next ?s0 True")
  from lex_next_inv [OF i0, of True] n have i1: "window_inv (snd s1)" by simp
  obtain e s2 where c: "consume_comment s1 = (e, s2)"
    by (cases "consume_comment s1")
  from consume_comment_loop_inv [OF i1, of NUL] c have i2: "window_inv (snd s2)"
    by (simp add: consume_comment_def)
  note ih = "1.IH" [OF _ refl]
  show ?case
  proof (cases "start (snd s) < end_pos (snd s) \<and> \<not> sizeof_buffer \<le> start (snd s) + tok_len (snd s)")
    case False
    with "1.prems" show ?thesis
      by (auto simp: fastd_lex.simps [of libc s] Let_def)
  next
    case True
    note t = this
    consider (ws) "cur ?s0 \<in> {CHR '' '', NEWLINE, CHR 0x09, CHR 0x0D}"
      | (punct) "cur ?s0 \<notin> {CHR '' '', NEWLINE, CHR 0x09, CHR 0x0D}"
          "cur ?s0 \<in> {CHR '';'', CHR '':'', CHR ''{'', CHR ''}''}"
      | (slash) "cur ?s0 \<notin> {CHR '' '', NEWLINE, CHR 0x09, CHR 0x0D}"
          "cur ?s0 \<notin> {CHR '';'', CHR '':'', CHR ''{'', CHR ''}''}" "cur ?s0 = CHR ''/''"
      | (hash) "cur ?s0 \<notin> {CHR '' '', NEWLINE, CHR 0x09, CHR 0x0D}"
          "cur ?s0 \<notin> {CHR '';'', CHR '':'', CHR ''{'', CHR ''}''}" "cur ?s0 \<noteq> CHR ''/''"
          "cur ?s0 = CHR ''#''"
      | (other) "cur ?s0 \<notin> {CHR '' '', NEWLINE, CHR 0x09, CHR 0x0D}"
          "cur ?s0 \<notin> {CHR '';'', CHR '':'', CHR ''{'', CHR ''}''}" "cur ?s0 \<noteq> CHR ''/''"
          "cur ?s0 \<noteq> CHR ''#''"
      by blast
    then show ?thesis
    proof cases
      case ws
      from t have a: "start (snd s) < end_pos (snd s)"
        "\<not> sizeof_buffer \<le> start (snd s) + tok_len (snd s)" by simp_all
      from ih(1) [OF a ws next_consume_inv [OF i0]] t ws show ?thesis
        by (simp add: fastd_lex.simps [of libc s] Let_def)
    next
      case punct
      with t next_consume_inv [OF i0, of False] show ?thesis
        by (simp add: fastd_lex.simps [of libc s] Let_def)
    next
      case slash
      from t have a: "start (snd s) < end_pos (snd s)"
        "\<not> sizeof_buffer \<le> start (snd s) + tok_len (snd s)" by simp_all
      show ?thesis
      proof (cases "ok")
        case False
        with t slash i1 show ?thesis
          by (simp add: fastd_lex.simps [of libc s] Let_def n)
      next
        case True
        note ok = this
        show ?thesis
        proof (cases "cur s1 = CHR ''*''")
          case True
          show ?thesis
          proof (cases e)
            case None
            from ih(2) [OF a slash n [symmetric] _ True c [symmetric] None i2] ok
            have "window_inv (snd (snd (fastd_lex libc s2)))" by simp
            with t slash ok True None show ?thesis
              by (simp add: fastd_lex.simps [of libc s] Let_def n c)
          next
            case (Some err)
            with t slash ok True i2 show ?thesis
              by (simp add: fastd_lex.simps [of libc s] Let_def n c)
          qed
        next
          case False
          note ns = this
          show ?thesis
          proof (cases "cur s1 = CHR ''/''")
            case False
            with t slash ok ns i1 show ?thesis
              by (simp add: fastd_lex.simps [of libc s] Let_def n)
          next
            case True
            from ih(3) [OF a slash n [symmetric] _ ns _ line_comment_inv [OF i1]] ok True
            have "window_inv (snd (snd (fastd_lex libc (line_comment s1))))" by simp
            with t slash ok ns True show ?thesis
              by (simp add: fastd_lex.simps [of libc s] Let_def n)
          qed
        qed
      qed
    next
      case hash
      from t have a: "start (snd s) < end_pos (snd s)"
        "\<not> sizeof_buffer \<le> start (snd s) + tok_len (snd s)" by simp_all
      from ih(4) [OF a hash line_comment_inv [OF i0]] t hash show ?thesis
        by (simp add: fastd_lex.simps [of libc s] Let_def)
    next
      case other
      with t i0 parse_string_inv [OF i0] parse_ipv6_address_inv [OF i0, of libc]
        parse_number_inv [OF i0, of libc] parse_keyword_inv [OF i0]
      show ?thesis
        by (simp add: fastd_lex.simps [of libc s] Let_def)
    qed
  qed
qed

subsection \<open>The separator flag\<close>

lemma advance_needspace: "needspace (snd (advance lx)) = needspace lx"
  by (simp add: advance_def Let_def split: prod.splits)

lemma lex_next_needspace: "needspace (snd (snd (lex_next s move))) = needspace (snd s)"
  by (simp add: lex_next_def Let_def advance_needspace)

lemma scan_loop_needspace: "needspace (snd (scan_loop move p s)) = needspace (snd s)"
proof (induction move p s rule: scan_loop.induct)
  case (1 move p s)
  obtain ok s1 where n: "lex_next s move = (ok, s1)"
    by (cases "lex_next s move")
  from lex_next_needspace [of s move] n have i: "needspace (snd s1) = needspace (snd s)" by simp
  show ?case
  proof (cases "ok \<and> p (cur s1)")
    case True
    with "1.IH" [OF n [symmetric]] i show ?thesis
      by (simp add: scan_loop.simps [of move p s] n)
  next
    case False
    with i show ?thesis
      by (auto simp: scan_loop.simps [of move p s] n)
  qed
qed

lemma number_loop_needspace: "needspace (snd (snd (number_loop s))) = needspace (snd s)"
proof (induction s rule: number_loop.induct)
  case (1 s)
  obtain ok s1 where n: "lex_next s False = (ok, s1)"
    by (cases "lex_next s False")
  from lex_next_needspace [of s False] n have i: "needspace (snd s1) = needspace (snd s)" by simp
  show ?case
  proof (cases "ok \<and> cur s1 \<noteq> CHR ''.'' \<and> is_digit (cur s1)")
    case True
    with "1.IH" [OF n [symmetric]] i show ?thesis
      by (simp add: number_loop.simps [of s] n)
  next
    case False
    with i show ?thesis
      by (auto simp: number_loop.simps [of s] n)
  qed
qed

lemma word_start_not_separator:
  assumes "c = DQUOTE \<or> c = CHR ''['' \<or> is_digit c \<or> is_lower c"
  shows "c \<notin> {CHR '' '', NEWLINE, CHR 0x09, CHR 0x0D}"
    "c \<notin> {CHR '';'', CHR '':'', CHR ''{'', CHR ''}''}" "c \<noteq> CHR ''/''" "c \<noteq> CHR ''#''"
  using assms by (auto simp: DQUOTE_def NEWLINE_def is_digit_def is_lower_def)

subsection \<open>Binary search in a sorted table\<close>

lemma strcmp_refl: "strcmp a a = 0"
  by (induction a) simp_all

lemma of_char_zero: "of_char c = (0::nat) \<Longrightarrow> c = NUL"
proof -
  assume "of_char c = (0::nat)"
  moreover have "of_char NUL = (0::nat)" by (simp add: NUL_def)
  ultimately have "(of_char c :: nat) = of_char NUL" by simp
  then show ?thesis by (simp only: of_char_eq_iff)
qed

lemma strcmp_eq:
  "strcmp a b = 0 \<Longrightarrow> NUL \<notin> set a \<Longrightarrow> NUL \<notin> set b \<Longrightarrow> a = b"
proof (induction a b rule: strcmp.induct)
  case 1
  show ?case by simp
next
  case (2 y ys)
  then have "of_char y = (0::nat)" by simp
  then have "y = NUL" by (rule of_char_zero)
  with 2 show ?case by simp
next
  case (3 x xs)
  then have "of_char x = (0::nat)" by simp
  then have "x = NUL" by (rule of_char_zero)
  with 3 show ?case by simp
next
  case (4 x xs y ys)
  show ?case
  proof (cases "x = y")
    case True
    with 4 show ?thesis by simp
  next
    case False
    with "4.prems"(1) have "int (of_char x) = int (of_char y)" by simp
    then have "x = y" by simp
    with False show ?thesis by simp
  qed
qed

lemma strcmp_antisym: "strcmp a b < 0 \<Longrightarrow> strcmp b a > 0"
  by (induction a b rule: strcmp.induct) (auto split: if_splits)

lemma bsearch_loop_sound:
  "bsearch_loop key base l u = Some e \<Longrightarrow> u \<le> length base
   \<Longrightarrow> e \<in> set base \<and> strcmp key (fst e) = 0"
proof (induction key base l u rule: bsearch_loop.induct)
  case (1 key base l u)
  let ?idx = "(l + u) div 2"
  let ?c = "compare_keywords key (base ! ?idx)"
  from "1.prems"(1) have lt: "l < u"
    by (simp add: bsearch_loop.simps [of key base l u] split: if_splits)
  with "1.prems"(2) have idx: "?idx < length base" "?idx \<le> length base" "?idx < u" by simp_all
  consider (less) "?c < 0" | (greater) "\<not> ?c < 0" "?c > 0" | (equal) "\<not> ?c < 0" "\<not> ?c > 0"
    by blast
  then show ?case
  proof cases
    case less
    with "1.prems"(1) lt have "bsearch_loop key base l ?idx = Some e"
      by (simp add: bsearch_loop.simps [of key base l u] Let_def)
    from "1.IH"(1) [OF lt refl refl less this idx(2)] show ?thesis .
  next
    case greater
    with "1.prems"(1) lt have "bsearch_loop key base (?idx + 1) u = Some e"
      by (simp add: bsearch_loop.simps [of key base l u] Let_def)
    from "1.IH"(2) [OF lt refl refl greater this "1.prems"(2)] show ?thesis .
  next
    case equal
    with "1.prems"(1) lt have "e = base ! ?idx"
      by (simp add: bsearch_loop.simps [of key base l u] Let_def)
    with equal idx(1) show ?thesis
      by (simp add: compare_keywords_def)
  qed
qed

lemma bsearch_loop_complete:
  "sorted_by_text base \<Longrightarrow> l \<le> i \<Longrightarrow> i < u \<Longrightarrow> u \<le> length base
   \<Longrightarrow> fst (base ! i) = key \<Longrightarrow> bsearch_loop key base l u = Some (base ! i)"
proof (induction key base l u rule: bsearch_loop.induct)
  case (1 key base l u)
  let ?idx = "(l + u) div 2"
  let ?c = "compare_keywords key (base ! ?idx)"
  from "1.prems" have lt: "l < u" by simp
  with "1.prems" have idx: "?idx < length base" "?idx \<le> length base" "?idx < u" "l \<le> ?idx"
    by simp_all
  note srt = "1.prems"(1) [unfolded sorted_by_text_def sorted_wrt_iff_nth_less, rule_format]
  consider (left) "i < ?idx" | (hit) "i = ?idx" | (right) "?idx < i"
    by (rule linorder_cases)
  then show ?case
  proof cases
    case left
    from srt [OF left idx(1)] "1.prems"(5) have c: "?c < 0" by simp
    from "1.IH"(1) [OF lt refl refl c "1.prems"(1,2) left idx(2) "1.prems"(5)] c lt
    show ?thesis
      by (simp add: bsearch_loop.simps [of key base l u] Let_def)
  next
    case hit
    with "1.prems"(5) have "?c = 0"
      by (simp add: compare_keywords_def strcmp_refl)
    with lt hit show ?thesis
      by (simp add: bsearch_loop.simps [of key base l u] Let_def)
  next
    case right
    from "1.prems"(3,4) have "i < length base" by simp
    from srt [OF right this] "1.prems"(5)
    have "strcmp (fst (base ! ?idx)) key < 0" by (simp add: compare_keywords_def)
    from strcmp_antisym [OF this] have c: "\<not> ?c < 0" "?c > 0"
      by (simp_all add: compare_keywords_def)
    from right have "?idx + 1 \<le> i" by simp
    from "1.IH"(2) [OF lt refl refl c "1.prems"(1) this "1.prems"(3,4,5)] c lt
    show ?thesis
      by (simp add: bsearch_loop.simps [of key base l u] Let_def)
  qed
qed

lemma bsearch_map_of:
  assumes "sorted_by_text base" "\<forall>e \<in> set base. NUL \<notin> set (fst e)" "NUL \<notin> set key"
  shows "bsearch key base = map_option (Pair key) (map_of base key)"
proof (cases "map_of base key")
  case None
  have "bsearch key base = None"
  proof (rule ccontr)
    assume "bsearch key base \<noteq> None"
    then obtain e where e: "bsearch_loop key base 0 (length base) = Some e"
      by (auto simp: bsearch_def)
    from bsearch_loop_sound [OF e] have m: "e \<in> set base" and z: "strcmp key (fst e) = 0"
      by simp_all
    from strcmp_eq [OF z assms(3)] assms(2) m have "fst e = key" by auto
    with m have "key \<in> fst ` set base" by force
    with None show False
      by (simp add: map_of_eq_None_iff)
  qed
  with None show ?thesis by simp
next
  case (Some tok)
  then have "(key, tok) \<in> set base" by (rule map_of_SomeD)
  then obtain i where i: "i < length base" "base ! i = (key, tok)"
    by (auto simp: in_set_conv_nth)
  from bsearch_loop_complete [OF assms(1) _ i(1), of 0 key] i
  have "bsearch key base = Some (key, tok)"
    by (simp add: bsearch_def)
  with Some show ?thesis by simp
qed

subsection \<open>Lookahead steps inside one window\<close>

lemma lookahead_current:
  assumes "lookahead lx w" "tok_len lx < length w"
  shows "current lx = w ! tok_len lx"
proof -
  from assms(1) have w: "w = take (length w) (buffer lx)" and s: "start lx = 0"
    by (simp_all add: lookahead_def)
  from assms(2) have "take (length w) (buffer lx) ! tok_len lx = buffer lx ! tok_len lx"
    by (rule nth_take)
  with w s show ?thesis
    by (simp add: current_def)
qed

lemma advance_full:
  assumes "lookahead lx w"
  shows "\<not> fst (advance lx) \<and> lookahead (snd (advance lx)) w
    \<and> tok_len (snd (advance lx)) = tok_len lx \<and> needspace (snd (advance lx)) = needspace lx"
  using assms
  by (auto simp: advance_def compact_def fread_def Let_def lookahead_def)

lemma lex_next_look_all:
  assumes "lookahead lx w" "tok_len lx < length w"
  shows "fst (lex_next (loc, lx) False) = (Suc (tok_len lx) < length w)
    \<and> lookahead (snd (snd (lex_next (loc, lx) False))) w
    \<and> tok_len (snd (snd (lex_next (loc, lx) False))) = Suc (tok_len lx)
    \<and> needspace (snd (snd (lex_next (loc, lx) False))) = needspace lx"
proof -
  let ?lx1 = "lx\<lparr>tok_len := tok_len lx + 1\<rparr>"
  from assms(1) have l1: "lookahead ?lx1 w" by (simp add: lookahead_def)
  from assms have s: "start lx = 0" "end_pos lx = length w" by (simp_all add: lookahead_def)
  show ?thesis
  proof (cases "Suc (tok_len lx) < length w")
    case True
    with assms s l1 show ?thesis
      by (simp add: lex_next_def Let_def)
  next
    case False
    with assms s advance_full [OF l1] show ?thesis
      by (simp add: lex_next_def Let_def)
  qed
qed

lemma lex_next_look:
  assumes "lookahead lx w" "tok_len lx < length w" "lex_next (loc, lx) False = (ok, loc1, lx1)"
  shows "ok = (Suc (tok_len lx) < length w)" "lookahead lx1 w" "tok_len lx1 = Suc (tok_len lx)"
    "needspace lx1 = needspace lx"
  using lex_next_look_all [OF assms(1,2), of loc] assms(3) by simp_all

lemma scan_loop_look:
  assumes "lookahead lx w" "tok_len lx < length w"
  shows "lookahead (snd (scan_loop False p (loc, lx))) w
    \<and> tok_len (snd (scan_loop False p (loc, lx)))
        = Suc (tok_len lx) + length (takeWhile p (drop (Suc (tok_len lx)) w))
    \<and> needspace (snd (scan_loop False p (loc, lx))) = needspace lx"
  using assms
proof (induction "length w - tok_len lx" arbitrary: loc lx)
  case 0
  then show ?case by simp
next
  case (Suc n)
  obtain ok loc1 lx1 where n: "lex_next (loc, lx) False = (ok, loc1, lx1)"
    by (cases "lex_next (loc, lx) False")
  note f = lex_next_look [OF Suc.prems n]
  show ?case
  proof (cases "Suc (tok_len lx) < length w")
    case False
    with f show ?thesis
      by (simp add: scan_loop.simps [of False p "(loc, lx)"] n)
  next
    case True
    with f have t1: "tok_len lx1 < length w" by simp
    from lookahead_current [OF f(2) t1] f(3) have c: "cur (loc1, lx1) = w ! Suc (tok_len lx)"
      by (simp add: cur_def)
    from True have d: "drop (Suc (tok_len lx)) w = w ! Suc (tok_len lx) # drop (Suc (Suc (tok_len lx))) w"
      by (simp add: Cons_nth_drop_Suc)
    show ?thesis
    proof (cases "p (w ! Suc (tok_len lx))")
      case False
      with f True c d show ?thesis
        by (simp add: scan_loop.simps [of False p "(loc, lx)"] n)
    next
      case p: True
      from Suc.hyps(2) f(3) have "n = length w - tok_len lx1" by simp
      from Suc.hyps(1) [OF this f(2) t1, of loc1] f True c d p show ?thesis
        by (simp add: scan_loop.simps [of False p "(loc, lx)"] n)
    qed
  qed
qed

lemma number_loop_look:
  assumes "lookahead lx w" "tok_len lx < length w"
  shows "lookahead (snd (snd (number_loop (loc, lx)))) w
    \<and> tok_len (snd (snd (number_loop (loc, lx))))
        = Suc (tok_len lx) + length (takeWhile is_digit (drop (Suc (tok_len lx)) w))
    \<and> needspace (snd (snd (number_loop (loc, lx)))) = needspace lx
    \<and> fst (number_loop (loc, lx))
        = (dropWhile is_digit (drop (Suc (tok_len lx)) w) \<noteq> []
           \<and> hd (dropWhile is_digit (drop (Suc (tok_len lx)) w)) = CHR ''.'')"
  using assms
proof (induction "length w - tok_len lx" arbitrary: loc lx)
  case 0
  then show ?case by simp
next
  case (Suc n)
  obtain ok loc1 lx1 where n: "lex_next (loc, lx) False = (ok, loc1, lx1)"
    by (cases "lex_next (loc, lx) False")
  note f = lex_next_look [OF Suc.prems n]
  show ?case
  proof (cases "Suc (tok_len lx) < length w")
    case False
    with f show ?thesis
      by (simp add: number_loop.simps [of "(loc, lx)"] n)
  next
    case True
    with f have t1: "tok_len lx1 < length w" by simp
    from lookahead_current [OF f(2) t1] f(3) have c: "cur (loc1, lx1) = w ! Suc (tok_len lx)"
      by (simp add: cur_def)
    from True have d: "drop (Suc (tok_len lx)) w = w ! Suc (tok_len lx) # drop (Suc (Suc (tok_len lx))) w"
      by (simp add: Cons_nth_drop_Suc)
    show ?thesis
    proof (cases "is_digit (w ! Suc (tok_len lx))")
      case False
      with f True c d show ?thesis
        by (simp add: number_loop.simps [of "(loc, lx)"] n)
    next
      case p: True
      then have nd: "w ! Suc (tok_len lx) \<noteq> CHR ''.''"
        by (auto simp: is_digit_def)
      from Suc.hyps(2) f(3) have "n = length w - tok_len lx1" by simp
      from Suc.hyps(1) [OF this f(2) t1, of loc1] f True c d p nd show ?thesis
        by (simp add: number_loop.simps [of "(loc, lx)"] n)
    qed
  qed
qed

lemma fastd_lex_init_lookahead:
  "lookahead (fastd_lex_init f) (take sizeof_buffer (pending f))
   \<and> tok_len (fastd_lex_init f) = 0"
  by (auto simp: fastd_lex_init_def advance_def compact_def fread_def Let_def lookahead_def
      sizeof_buffer_def min_def)

lemma lookahead_get_token:
  assumes "lookahead lx w" "tok_len lx \<le> length w"
  shows "get_token lx = c_string (take (tok_len lx) w)"
proof -
  from assms have "take (tok_len lx) w = take (tok_len lx) (take (length w) (buffer lx))"
    by (simp add: lookahead_def)
  also from assms(2) have "\<dots> = take (tok_len lx) (buffer lx)"
    by (simp add: min_def)
  finally show ?thesis using assms(1)
    by (simp add: get_token_def lookahead_def)
qed

subsection \<open>Keywords\<close>

lemma keywords_sorted: "sorted_by_text keywords_table"
  unfolding sorted_by_text_def by code_simp

lemma keywords_shape:
  "\<forall>e \<in> set keywords_table.
     fst e \<noteq> [] \<and> is_lower (hd (fst e)) \<and> (\<forall>c \<in> set (fst e). is_keyword_char c)
     \<and> length (fst e) < 16"
  by code_simp

lemma keywords_distinct: "distinct (map fst keywords_table)"
  by code_simp

lemma is_keyword_char_not_NUL: "is_keyword_char c \<Longrightarrow> c \<noteq> NUL"
  by (auto simp: is_keyword_char_def is_lower_def is_digit_def NUL_def)

lemma keywords_no_NUL: "\<forall>e \<in> set keywords_table. NUL \<notin> set (fst e)"
  using keywords_shape is_keyword_char_not_NUL by blast

lemma c_string_id: "NUL \<notin> set w \<Longrightarrow> c_string w = w"
  by (auto simp: c_string_def takeWhile_eq_all_conv)

lemma lower_not_digit: "is_lower c \<Longrightarrow> \<not> is_digit c"
proof
  assume "is_lower c" "is_digit c"
  then have "CHR ''a'' \<le> c" "c \<le> CHR ''9''"
    by (simp_all add: is_lower_def is_digit_def)
  then have "CHR ''a'' \<le> CHR ''9''" by (rule order_trans)
  then show False by simp
qed

lemma fastd_lex_lower:
  assumes "positioned lx" "rest_input lx = c # cs" "is_lower c"
  shows "fastd_lex libc (loc, lx)
         = parse_keyword (loc\<lparr>first_line := last_line loc, first_column := last_column loc + 1\<rparr>, lx)"
proof -
  from assms(3) have w: "c \<noteq> DQUOTE" "c \<noteq> CHR ''[''" "\<not> is_digit c"
    by (auto simp: is_lower_def DQUOTE_def lower_not_digit)
  from assms(3) have "c = DQUOTE \<or> c = CHR ''['' \<or> is_digit c \<or> is_lower c" by simp
  note s = word_start_not_separator [OF this]
  from positioned_current [OF assms(1,2)] assms(3) w s show ?thesis
    by (simp add: fastd_lex.simps [of libc "(loc, lx)"] cur_def Let_def del: insert_iff)
qed

lemma fastd_lex_minus:
  assumes "positioned lx" "rest_input lx = CHR ''-'' # cs"
  shows "fst (fastd_lex libc (loc, lx)) = Error SyntaxError"
  using positioned_current [OF assms]
  by (simp add: fastd_lex.simps [of libc "(loc, lx)"] cur_def Let_def DQUOTE_def NEWLINE_def
      is_digit_def is_lower_def)

lemma parse_keyword_look:
  assumes "lookahead lx w" "tok_len lx = 0" "w \<noteq> []" "\<forall>c \<in> set w. is_keyword_char c"
    "\<not> needspace lx"
  shows "fst (parse_keyword (loc, lx))
         = (case map_of keywords_table w of None \<Rightarrow> Error SyntaxError | Some tok \<Rightarrow> Token tok)"
proof -
  let ?p = "\<lambda>c. is_lower c \<or> is_digit c \<or> c = CHR ''-''"
  let ?s1 = "scan_loop False ?p (loc, lx)"
  from assms(2,3) have lt: "tok_len lx < length w" by simp
  from assms(4) have "\<forall>c \<in> set (drop (Suc 0) w). ?p c"
    by (auto simp: is_keyword_char_def dest: in_set_dropD)
  then have "takeWhile ?p (drop (Suc 0) w) = drop (Suc 0) w"
    by (simp add: takeWhile_eq_all_conv)
  with scan_loop_look [OF assms(1) lt, of ?p loc] assms(2,3,5)
  have l: "lookahead (snd ?s1) w" and t: "tok_len (snd ?s1) = length w"
    by (simp_all add: Suc_leI)
  from assms(4) have nn: "NUL \<notin> set w"
    using is_keyword_char_not_NUL by blast
  from lookahead_get_token [OF l] t nn have g: "get_token (snd ?s1) = w"
    by (simp add: c_string_id)
  from bsearch_map_of [OF keywords_sorted keywords_no_NUL nn] g assms(5) show ?thesis
    by (simp add: parse_keyword_def Let_def split: option.splits)
qed

lemma lex_text_keyword_char:
  assumes "str \<noteq> []" "\<forall>c \<in> set str. is_keyword_char c" "is_lower (hd str)"
  shows "fst (lex_text libc loc str)
         = (case map_of keywords_table str of None \<Rightarrow> Error SyntaxError | Some tok \<Rightarrow> Token tok)"
proof -
  let ?lx = "fastd_lex_init (stream_of str)"
  let ?loc = "loc\<lparr>first_line := last_line loc, first_column := last_column loc + 1\<rparr>"
  let ?w = "take sizeof_buffer str"
  from assms(1) obtain c cs where tx: "str = c # cs" by (cases str) simp_all
  from fastd_lex_init_positioned [of "stream_of str"] tx
  have i: "positioned ?lx" "rest_input ?lx = c # cs" "\<not> needspace ?lx"
    by (simp_all add: stream_of_def)
  from fastd_lex_init_lookahead [of "stream_of str"]
  have l: "lookahead ?lx ?w" "tok_len ?lx = 0"
    by (simp_all add: stream_of_def)
  from assms(1) have ne: "?w \<noteq> []" by (simp add: sizeof_buffer_def)
  from assms(2) have all: "\<forall>c \<in> set ?w. is_keyword_char c"
    by (auto dest: in_set_takeD)
  from assms(3) tx have lo: "is_lower c" by simp
  have m: "map_of keywords_table ?w = map_of keywords_table str"
  proof (cases "length str \<le> sizeof_buffer")
    case True
    then show ?thesis by simp
  next
    case False
    have short: "map_of keywords_table k = Some tok \<Longrightarrow> length k < 16" for k tok
      using keywords_shape by (force dest: map_of_SomeD)
    from False have "length ?w = sizeof_buffer" by simp
    with short [of ?w] have "map_of keywords_table ?w = None"
      by (cases "map_of keywords_table ?w") (simp_all add: sizeof_buffer_def)
    moreover from False short [of str] have "map_of keywords_table str = None"
      by (cases "map_of keywords_table str") (simp_all add: sizeof_buffer_def)
    ultimately show ?thesis by simp
  qed
  from parse_keyword_look [OF l ne all i(3), of ?loc] m show ?thesis
    by (simp add: lex_text_def fastd_lex_lower [OF i(1,2) lo])
qed

subsection \<open>Numbers\<close>

lemma digit_not_lower: "is_digit c \<Longrightarrow> \<not> is_lower c"
  using lower_not_digit by blast

lemma fastd_lex_digit:
  assumes "positioned lx" "rest_input lx = c # cs" "is_digit c"
  shows "fastd_lex libc (loc, lx)
         = parse_number libc (loc\<lparr>first_line := last_line loc, first_column := last_column loc + 1\<rparr>, lx)"
proof -
  from assms(3) have w: "c \<noteq> DQUOTE" "c \<noteq> CHR ''[''"
    by (auto simp: is_digit_def DQUOTE_def)
  from assms(3) have "c = DQUOTE \<or> c = CHR ''['' \<or> is_digit c \<or> is_lower c" by simp
  note s = word_start_not_separator [OF this]
  from positioned_current [OF assms(1,2)] assms(3) w s show ?thesis
    by (simp add: fastd_lex.simps [of libc "(loc, lx)"] cur_def Let_def del: insert_iff)
qed

lemma is_digit_not_space: "is_digit c \<Longrightarrow> \<not> isspace c \<and> c \<noteq> CHR ''-'' \<and> c \<noteq> CHR ''+'' \<and> c \<noteq> NUL"
  by (auto simp: is_digit_def isspace_def NUL_def)

lemma strtoull_digits:
  assumes "ds \<noteq> []" "\<forall>c \<in> set ds. is_digit c"
  shows "strtoull ds = (of_int (min (digits_value ds) ULLONG_MAX), [])"
proof -
  from assms obtain d ds' where ds: "ds = d # ds'" and d: "is_digit d"
    by (cases ds) auto
  from assms(2) have tw: "takeWhile is_digit ds = ds" "dropWhile is_digit ds = []"
    by (simp_all add: takeWhile_eq_all_conv)
  from is_digit_not_space [OF d] ds have "dropWhile isspace ds = ds" by simp
  with tw assms(1) is_digit_not_space [OF d] ds show ?thesis
    by (simp add: strtoull_def Let_def min_def not_less)
qed

lemma parse_number_look:
  assumes "lookahead lx (ds @ rest)" "tok_len lx = 0" "ds \<noteq> []" "\<forall>c \<in> set ds. is_digit c"
    "rest = [] \<or> (\<not> is_digit (hd rest) \<and> hd rest \<noteq> CHR ''.'')" "\<not> needspace lx"
  shows "fst (parse_number libc (loc, lx))
         = Token (TOK_UINT (of_int (min (digits_value ds) ULLONG_MAX)))
    \<and> \<not> needspace (snd (snd (parse_number libc (loc, lx))))
    \<and> tok_len (snd (snd (parse_number libc (loc, lx)))) = length ds
    \<and> start (snd (snd (parse_number libc (loc, lx)))) = 0"
proof -
  obtain dot loc1 lx1 where nl: "number_loop (loc, lx) = (dot, loc1, lx1)"
    by (cases "number_loop (loc, lx)")
  from assms(2,3) have lt: "tok_len lx < length (ds @ rest)" by (cases ds) simp_all
  from assms(3) have d1: "drop (Suc 0) (ds @ rest) = drop (Suc 0) ds @ rest"
    by (cases ds) simp_all
  from assms(4) have all: "\<forall>c \<in> set (drop (Suc 0) ds). is_digit c"
    by (auto dest: in_set_dropD)
  from assms(5) have r: "takeWhile is_digit rest = []" "dropWhile is_digit rest = rest"
    by (cases rest; simp)+
  from all r have tw: "takeWhile is_digit (drop (Suc 0) ds @ rest) = drop (Suc 0) ds"
    by (simp add: takeWhile_append2)
  from all r have dw: "dropWhile is_digit (drop (Suc 0) ds @ rest) = rest"
    by (simp add: dropWhile_append2)
  from assms(3) have len: "Suc (length ds - Suc 0) = length ds" by (cases ds) simp_all
  from number_loop_look [OF assms(1) lt, of loc] nl assms(2,5,6) d1 tw dw len
  have f: "lookahead lx1 (ds @ rest)" "tok_len lx1 = length ds" "\<not> needspace lx1" "\<not> dot"
    by auto
  from assms(4) have nn: "NUL \<notin> set ds"
    using is_digit_not_space by blast
  from lookahead_get_token [OF f(1)] f(2) nn have g: "get_token lx1 = ds"
    by (simp add: c_string_id)
  from f(1) have "start lx1 = 0" by (simp add: lookahead_def)
  with strtoull_digits [OF assms(3,4)] g f assms(6) show ?thesis
    by (simp add: parse_number_def nl)
qed

lemma lex_text_number:
  assumes "ds \<noteq> []" "\<forall>c \<in> set ds. is_digit c"
    "rest = [] \<or> (\<not> is_digit (hd rest) \<and> hd rest \<noteq> CHR ''.'')"
    "length (ds @ rest) \<le> sizeof_buffer"
  shows "fst (lex_text libc loc (ds @ rest))
         = Token (TOK_UINT (of_int (min (digits_value ds) ULLONG_MAX)))
    \<and> \<not> needspace (snd (snd (lex_text libc loc (ds @ rest))))
    \<and> tok_len (snd (snd (lex_text libc loc (ds @ rest)))) = length ds
    \<and> start (snd (snd (lex_text libc loc (ds @ rest)))) = 0"
proof -
  let ?lx = "fastd_lex_init (stream_of (ds @ rest))"
  let ?loc = "loc\<lparr>first_line := last_line loc, first_column := last_column loc + 1\<rparr>"
  from assms(1,2) obtain d ds' where ds: "ds = d # ds'" and d: "is_digit d"
    by (cases ds) auto
  from fastd_lex_init_positioned [of "stream_of (ds @ rest)"] ds
  have i: "positioned ?lx" "rest_input ?lx = d # ds' @ rest" "\<not> needspace ?lx"
    by (simp_all add: stream_of_def)
  from fastd_lex_init_lookahead [of "stream_of (ds @ rest)"] assms(4)
  have l: "lookahead ?lx (ds @ rest)" "tok_len ?lx = 0"
    by (simp_all add: stream_of_def)
  from parse_number_look [OF l assms(1,2,3) i(3), of libc ?loc] show ?thesis
    by (simp add: lex_text_def fastd_lex_digit [OF i(1,2) d])
qed

lemma decimal_digit:
  assumes "d < 10"
  shows "is_digit (char_of (48 + d))" "digit_value (char_of (48 + d)) = int d"
proof -
  from assms have m: "(48 + d) mod 256 = 48 + d" by simp
  have o: "of_char (char_of (48 + d)) = 48 + d"
    using m by simp
  from assms o show "is_digit (char_of (48 + d))"
    by (simp add: is_digit_def less_eq_char_def)
  have "(of_char (char_of (48 + d)) :: int) = int (of_char (char_of (48 + d)))"
    by (rule of_nat_of_char [symmetric])
  with o show "digit_value (char_of (48 + d)) = int d"
    by (simp add: digit_value_def)
qed

lemma decimal_digits: "decimal n \<noteq> [] \<and> (\<forall>c \<in> set (decimal n). is_digit c)"
proof (induction n rule: decimal.induct)
  case (1 n)
  show ?case
  proof (cases "n < 10")
    case True
    with decimal_digit(1) [of n] show ?thesis
      by (simp add: decimal.simps [of n])
  next
    case False
    with "1.IH" decimal_digit(1) [of "n mod 10"] show ?thesis
      by (simp add: decimal.simps [of n])
  qed
qed

lemma digits_value_snoc: "digits_value (ds @ [c]) = digits_value ds * 10 + digit_value c"
  by (simp add: digits_value_def)

lemma digits_value_decimal: "digits_value (decimal n) = int n"
proof (induction n rule: decimal.induct)
  case (1 n)
  show ?case
  proof (cases "n < 10")
    case True
    with decimal_digit(2) [of n] show ?thesis
      by (simp add: decimal.simps [of n] digits_value_def)
  next
    case False
    have "int (n div 10) * 10 + int (n mod 10) = int n"
      by (simp add: of_nat_div of_nat_mod)
    with False "1.IH" decimal_digit(2) [of "n mod 10"] show ?thesis
      by (simp add: decimal.simps [of n] digits_value_snoc)
  qed
qed

lemma length_decimal: "n < 10 ^ Suc k \<Longrightarrow> length (decimal n) \<le> Suc k"
proof (induction k arbitrary: n)
  case 0
  then show ?case by (simp add: decimal.simps [of n])
next
  case (Suc k)
  show ?case
  proof (cases "n < 10")
    case True
    then show ?thesis by (simp add: decimal.simps [of n])
  next
    case False
    from Suc.prems have "n div 10 < 10 ^ Suc k"
      by (simp add: less_mult_imp_div_less mult.commute)
    from Suc.IH [OF this] False show ?thesis
      by (simp add: decimal.simps [of n])
  qed
qed

lemma uint_decimal_text:
  assumes "n < 2 ^ 64" "rest = [] \<or> (\<not> is_digit (hd rest) \<and> hd rest \<noteq> CHR ''.'')"
    "length rest \<le> 1000"
  shows "fst (lex_text libc loc (decimal n @ rest)) = Token (TOK_UINT (of_nat n))"
proof -
  have "(2::nat) ^ 64 < 10 ^ Suc 19" by simp
  with assms(1) have "n < 10 ^ Suc 19" by (rule less_trans)
  from length_decimal [OF this] assms(3) have len: "length (decimal n @ rest) \<le> sizeof_buffer"
    by (simp add: sizeof_buffer_def)
  from assms(1) have "int n \<le> ULLONG_MAX"
    by (simp add: ULLONG_MAX_def)
  with lex_text_number [of "decimal n" rest libc loc] decimal_digits [of n] assms(2) len
  show ?thesis
    by (simp add: digits_value_decimal min_def)
qed

section \<open>The claims\<close>

text \<open>
  Claim C1 fails on the code. After the token UINT the flag \<^verbatim>\<open>needspace\<close> is
  clear, and the string that follows the number without a separator is lexed
  as a token.
\<close>

theorem uint_leaves_needspace_clear:
  "fst (lex_text libc loc [CHR ''1'', DQUOTE, DQUOTE]) = Token (TOK_UINT 1)
   \<and> \<not> needspace (snd (snd (lex_text libc loc [CHR ''1'', DQUOTE, DQUOTE])))
   \<and> fst (fastd_lex libc (snd (lex_text libc loc [CHR ''1'', DQUOTE, DQUOTE]))) = Token (TOK_STRING [])"
  unfolding lex_text_def stream_of_def by code_simp

text \<open>
  Claim C2 fails on the code. The scan behind the bracket accepts decimal digits
  and colons only, so the address \<^verbatim>\<open>[::a]\<close> is an invalid address whatever the
  decoder says.
\<close>

theorem ipv6_hex_digit_rejected:
  "fst (lex_text libc loc ''[::a]'') = Error InvalidAddress"
  unfolding lex_text_def stream_of_def by code_simp

text \<open>
  Two more observations on the same scanner, with a decoder that knows the
  loopback address. The examples without letters behave as described. But when
  the input ends behind the address, the byte that the code compares with the
  bracket lies behind the window, where the buffer still holds what it held
  before: after a comment that contained brackets, an address without its
  closing bracket is accepted.
\<close>

lemma ipv6_examples:
  "fst (lex_text libc_sample loc ''[::1]'')
     = Token (TOK_ADDR6 [0, 0, 0, 0, 0, 0, 0, 0, 0, 0, 0, 0, 0, 0, 0, 1])
   \<and> fst (lex_text libc_sample loc ''[::g]'') = Error InvalidAddress"
  by code_simp

lemma ipv6_missing_bracket_accepted:
  "fst (lex_text libc_sample loc (''#]]]]]]]'' @ [NEWLINE] @ ''[::1''))
     = Token (TOK_ADDR6 [0, 0, 0, 0, 0, 0, 0, 0, 0, 0, 0, 0, 0, 0, 0, 1])"
  by code_simp

text \<open>
  Claim C3 fails on the code. The digit run \<^verbatim>\<open>18446744073709551616\<close>, which is
  \<open>2 ^ 64\<close>, does not fit 64 bits; the pull returns the token UINT with the
  value \<open>2 ^ 64 - 1\<close> and no invalid integer constant. (For the decimal text
  of every number below \<open>2 ^ 64\<close> the pull returns that number, which is
  \<open>uint_decimal_text\<close>.)
\<close>

theorem uint_overflow_accepted:
  "fst (lex_text libc loc ''18446744073709551616'') = Token (TOK_UINT 18446744073709551615)"
proof -
  have d: "\<forall>c \<in> set ''18446744073709551616''. is_digit c"
    by (simp add: is_digit_def)
  have "fst (lex_text libc loc (''18446744073709551616'' @ []))
      = Token (TOK_UINT (of_int (min (digits_value ''18446744073709551616'') ULLONG_MAX)))"
    by (rule lex_text_number [THEN conjunct1, OF _ d]) (simp_all add: sizeof_buffer_def)
  then show ?thesis
    by (simp add: digits_value_def digit_value_def ULLONG_MAX_def)
qed

text \<open>
  Claim C4. Lexing a quote, the escaped form of any byte sequence \<open>s\<close> and a
  quote yields the token STRING with payload \<open>s\<close>, and the next pull reports the
  end of the input: one token. Inside a string, a backslash and the byte \<open>d\<close>
  behind it contribute nothing when \<open>d\<close> is a newline, and the byte \<open>d\<close>
  alone otherwise.
\<close>

theorem string_round_trip:
  "fst (lex_text libc loc (DQUOTE # escape s @ [DQUOTE])) = Token (TOK_STRING s)
   \<and> fst (fastd_lex libc (snd (lex_text libc loc (DQUOTE # escape s @ [DQUOTE])))) = End
   \<and> (string_body pre \<and> string_body post \<longrightarrow>
        fst (lex_text libc loc (DQUOTE # pre @ BACKSLASH # d # post @ [DQUOTE]))
        = Token (TOK_STRING (unescape pre @ (if d = NEWLINE then [] else [d]) @ unescape post)))"
proof (intro conjI impI)
  note l = lex_text_string [OF string_body_escape [of s], where libc = libc and loc = loc and rest = "[]"]
  from l show "fst (lex_text libc loc (DQUOTE # escape s @ [DQUOTE])) = Token (TOK_STRING s)"
    by (simp add: unescape_escape)
  obtain r loc1 lx1 where p: "lex_text libc loc (DQUOTE # escape s @ [DQUOTE]) = (r, loc1, lx1)"
    by (cases "lex_text libc loc (DQUOTE # escape s @ [DQUOTE])")
  with l have "positioned lx1" "rest_input lx1 = []" "tok_len lx1 = 0" "\<not> ferror (infile lx1)"
    by simp_all
  from fastd_lex_empty [OF this(1,2,3), of libc loc1] this(4)
  show "fst (fastd_lex libc (snd (lex_text libc loc (DQUOTE # escape s @ [DQUOTE])))) = End"
    by (simp add: p lex_end_def)
next
  assume a: "string_body pre \<and> string_body post"
  then have sb: "string_body (pre @ BACKSLASH # d # post)"
    by (simp add: string_body_append DQUOTE_def BACKSLASH_def)
  from a have "unescape (pre @ BACKSLASH # d # post)
      = unescape pre @ (if d = NEWLINE then [] else [d]) @ unescape post"
    by (simp add: unescape_append)
  with lex_text_string [OF sb, where libc = libc and loc = loc and rest = "[]"]
  show "fst (lex_text libc loc (DQUOTE # pre @ BACKSLASH # d # post @ [DQUOTE]))
        = Token (TOK_STRING (unescape pre @ (if d = NEWLINE then [] else [d]) @ unescape post))"
    by simp
qed

theorem string_round_trip_witness:
  "string_body ''ab'' \<and> string_body ''cd''
   \<and> fst (lex_text libc_sample loc_start (DQUOTE # ''ab'' @ BACKSLASH # NEWLINE # ''cd'' @ [DQUOTE]))
     = Token (TOK_STRING ''abcd'')
   \<and> fst (lex_text libc_sample loc_start (DQUOTE # ''ab'' @ BACKSLASH # CHR ''n'' # ''cd'' @ [DQUOTE]))
     = Token (TOK_STRING ''abncd'')"
  using string_round_trip [of libc_sample loc_start "[]" "''ab''" "''cd''" NEWLINE]
    string_round_trip [of libc_sample loc_start "[]" "''ab''" "''cd''" "CHR ''n''"]
  by (simp add: DQUOTE_def BACKSLASH_def NEWLINE_def)

text \<open>
  Claim C5, as amended. Take any state between two steps and any pull. When the
  input ahead is white space and comments, then the opening quote of a string,
  then a text without an unescaped quote, and \<^verbatim>\<open>needspace\<close> is clear when the
  quote is reached (it is clear from the start, or something is skipped first),
  the pull fails: with the I/O error when the stream has reported an error or
  ends in one, and with the unterminated string otherwise. When the input ahead
  is white space and comments, then \<^verbatim>\<open>/*\<close>, then a text without \<^verbatim>\<open>*/\<close>, the
  pull fails in the same way, with the I/O error or the unterminated block
  comment. When the quote is the current byte and \<^verbatim>\<open>needspace\<close> is set, the
  pull fails with the syntax error and the string is not scanned.
\<close>

theorem unterminated_literal:
  "(positioned lx \<and> rest_input lx = pre @ DQUOTE # body \<and> skipped pre
      \<and> unquoted body \<and> (pre = [] \<longrightarrow> \<not> needspace lx)
    \<longrightarrow> fst (fastd_lex libc (loc, lx))
        = Error (if io_failed lx then IOError else UnterminatedString))
   \<and> (positioned lx \<and> rest_input lx = pre @ ''/*'' @ body \<and> skipped pre
      \<and> \<not> sublist ''*/'' body
    \<longrightarrow> fst (fastd_lex libc (loc, lx))
        = Error (if io_failed lx then IOError else UnterminatedComment))
   \<and> (positioned lx \<and> rest_input lx = DQUOTE # body \<and> needspace lx
    \<longrightarrow> fst (fastd_lex libc (loc, lx)) = Error SyntaxError)"
proof (intro conjI impI)
  assume a: "positioned lx \<and> rest_input lx = pre @ DQUOTE # body \<and> skipped pre
      \<and> unquoted body \<and> (pre = [] \<longrightarrow> \<not> needspace lx)"
  with fastd_lex_skipped [of pre lx "DQUOTE # body" libc loc]
  obtain loc1 lx1 where s: "fastd_lex libc (loc, lx) = fastd_lex libc (loc1, lx1)"
    "positioned lx1" "rest_input lx1 = DQUOTE # body" "io_failed lx1 = io_failed lx"
    and ns: "\<not> needspace lx1"
    by (auto split: if_splits)
  let ?loc = "loc1\<lparr>first_line := last_line loc1, first_column := last_column loc1 + 1\<rparr>"
  from a have u: "unquoted body" by simp
  from parse_string_open [OF u s(2,3) ns, of ?loc] s(1,4)
  show "fst (fastd_lex libc (loc, lx))
        = Error (if io_failed lx then IOError else UnterminatedString)"
    by (simp add: fastd_lex_dquote [OF s(2,3)])
next
  assume a: "positioned lx \<and> rest_input lx = pre @ ''/*'' @ body \<and> skipped pre
      \<and> \<not> sublist ''*/'' body"
  with fastd_lex_skipped [of pre lx "''/*'' @ body" libc loc]
  obtain loc1 lx1 where s: "fastd_lex libc (loc, lx) = fastd_lex libc (loc1, lx1)"
    "positioned lx1" "rest_input lx1 = ''/*'' @ body" "io_failed lx1 = io_failed lx"
    by auto
  from a have n: "\<not> sublist ''*/'' body" by simp
  from fastd_lex_block_comment_open [OF n s(2,3), of libc loc1] s(1,4)
  show "fst (fastd_lex libc (loc, lx))
        = Error (if io_failed lx then IOError else UnterminatedComment)"
    by simp
next
  assume "positioned lx \<and> rest_input lx = DQUOTE # body \<and> needspace lx"
  then show "fst (fastd_lex libc (loc, lx)) = Error SyntaxError"
    using parse_string_needspace [of lx body libc loc] by simp
qed

theorem unterminated_literal_witness:
  "fst (fastd_lex libc_sample (loc_start, fastd_lex_init
        \<lparr>pending = '' '' @ DQUOTE # ''abc'', fails = False, ferror = False\<rparr>))
      = Error UnterminatedString
   \<and> fst (fastd_lex libc_sample (loc_start, fastd_lex_init
        \<lparr>pending = '' '' @ DQUOTE # ''abc'', fails = True, ferror = False\<rparr>))
      = Error IOError
   \<and> fst (fastd_lex libc_sample (loc_start, fastd_lex_init
        \<lparr>pending = (''/*c*/#d'' @ [NEWLINE]) @ DQUOTE # ''abc'', fails = False, ferror = False\<rparr>))
      = Error UnterminatedString
   \<and> fst (fastd_lex libc_sample (snd (lex_text libc_sample loc_start (''yes '' @ DQUOTE # ''abc''))))
      = Error UnterminatedString
   \<and> fst (fastd_lex libc_sample (loc_start, fastd_lex_init
        \<lparr>pending = '' '' @ ''/*'' @ '' abc'', fails = False, ferror = False\<rparr>))
      = Error UnterminatedComment
   \<and> fst (fastd_lex libc_sample (loc_start, fastd_lex_init
        \<lparr>pending = '' '' @ ''/*'' @ '' abc'', fails = True, ferror = False\<rparr>))
      = Error IOError
   \<and> fst (fastd_lex libc_sample (snd (lex_text libc_sample loc_start (''yes'' @ DQUOTE # ''abc''))))
      = Error SyntaxError
   \<and> fst (fastd_lex libc_sample (snd (lex_text libc_sample loc_start (''1'' @ DQUOTE # ''abc''))))
      = Error UnterminatedString"
proof -
  let ?f1 = "\<lparr>pending = '' '' @ DQUOTE # ''abc'', fails = False, ferror = False\<rparr>"
  let ?f2 = "\<lparr>pending = '' '' @ DQUOTE # ''abc'', fails = True, ferror = False\<rparr>"
  let ?f8 = "\<lparr>pending = (''/*c*/#d'' @ [NEWLINE]) @ DQUOTE # ''abc'', fails = False, ferror = False\<rparr>"
  let ?f3 = "\<lparr>pending = '' '' @ ''/*'' @ '' abc'', fails = False, ferror = False\<rparr>"
  let ?f4 = "\<lparr>pending = '' '' @ ''/*'' @ '' abc'', fails = True, ferror = False\<rparr>"
  let ?s5 = "snd (lex_text libc_sample loc_start (''yes '' @ DQUOTE # ''abc''))"
  let ?s6 = "snd (lex_text libc_sample loc_start (''yes'' @ DQUOTE # ''abc''))"
  let ?s7 = "snd (lex_text libc_sample loc_start (''1'' @ DQUOTE # ''abc''))"
  have b: "skipped '' ''"
    by (intro skipped.intros) (simp add: is_blank_def)
  have "\<not> closes NUL (''c'' @ ''*'')"
    by (simp add: NUL_def)
  then have "\<not> sublist ''*/'' (''c'' @ ''*'')"
    by (simp add: closes_sublist NUL_def)
  then have "skipped (''/*'' @ ''c'' @ ''*/'' @ CHR ''#'' # ''d'' @ NEWLINE # [])"
    by (intro skipped.intros) (simp_all add: NEWLINE_def)
  then have k: "skipped (''/*c*/#d'' @ [NEWLINE])"
    by simp
  have u: "unquoted ''abc''"
    by (simp add: DQUOTE_def BACKSLASH_def)
  have "\<not> closes NUL '' abc''"
    by (simp add: NUL_def)
  then have c: "\<not> sublist ''*/'' '' abc''"
    by (simp add: closes_sublist NUL_def)
  have h5: "positioned (snd ?s5) \<and> rest_input (snd ?s5) = '' '' @ DQUOTE # ''abc''
      \<and> \<not> io_failed (snd ?s5)"
    by code_simp
  have h6: "positioned (snd ?s6) \<and> rest_input (snd ?s6) = DQUOTE # ''abc''
      \<and> needspace (snd ?s6)"
    by code_simp
  have h7: "positioned (snd ?s7) \<and> rest_input (snd ?s7) = DQUOTE # ''abc''
      \<and> \<not> needspace (snd ?s7) \<and> \<not> io_failed (snd ?s7) \<and> tok_len (snd ?s7) = 1"
    by code_simp
  note i = fastd_lex_init_positioned
  note t1 = unterminated_literal [THEN conjunct1, rule_format]
  note t2 = unterminated_literal [THEN conjunct2, THEN conjunct1, rule_format]
  note t3 = unterminated_literal [THEN conjunct2, THEN conjunct2, rule_format]
  have r1: "fst (fastd_lex libc_sample (loc_start, fastd_lex_init ?f1)) = Error UnterminatedString"
    using t1 [of "fastd_lex_init ?f1" "'' ''" "''abc''" libc_sample loc_start] b u i [of ?f1]
    by (simp del: unquoted.simps)
  have r2: "fst (fastd_lex libc_sample (loc_start, fastd_lex_init ?f2)) = Error IOError"
    using t1 [of "fastd_lex_init ?f2" "'' ''" "''abc''" libc_sample loc_start] b u i [of ?f2]
    by (simp del: unquoted.simps)
  have r8: "fst (fastd_lex libc_sample (loc_start, fastd_lex_init ?f8)) = Error UnterminatedString"
    using t1 [of "fastd_lex_init ?f8" "''/*c*/#d'' @ [NEWLINE]" "''abc''" libc_sample loc_start]
      k u i [of ?f8]
    by (simp del: unquoted.simps)
  have r5: "fst (fastd_lex libc_sample ?s5) = Error UnterminatedString"
    using t1 [of "snd ?s5" "'' ''" "''abc''" libc_sample "fst ?s5"] b u h5
    by (simp del: unquoted.simps)
  have r3: "fst (fastd_lex libc_sample (loc_start, fastd_lex_init ?f3)) = Error UnterminatedComment"
    using t2 [of "fastd_lex_init ?f3" "'' ''" "'' abc''" libc_sample loc_start] b c i [of ?f3]
    by simp
  have r4: "fst (fastd_lex libc_sample (loc_start, fastd_lex_init ?f4)) = Error IOError"
    using t2 [of "fastd_lex_init ?f4" "'' ''" "'' abc''" libc_sample loc_start] b c i [of ?f4]
    by simp
  have r6: "fst (fastd_lex libc_sample ?s6) = Error SyntaxError"
    using t3 [of "snd ?s6" "''abc''" libc_sample "fst ?s6"] h6
    by simp
  have r7: "fst (fastd_lex libc_sample ?s7) = Error UnterminatedString"
    using t1 [of "snd ?s7" "[]" "''abc''" libc_sample "fst ?s7"] u h7 skipped.nothing
    by (simp del: unquoted.simps)
  from r1 r2 r8 r5 r3 r4 r6 r7 show ?thesis
    by (simp only: simp_thms)
qed

text \<open>
  Claim C5 as stated fails where the string scanner rejects the quote before it
  scans: on the input \<^verbatim>\<open>yes"abc\<close> the input ends before the closing quote of the
  string, and the second pull fails with the syntax error, not with the
  unterminated string.
\<close>

theorem unterminated_string_after_word:
  "fst (lex_text libc_sample loc_start (''yes'' @ DQUOTE # ''abc'')) = Token TOK_YES
   \<and> unquoted ''abc''
   \<and> fst (fastd_lex libc_sample (snd (lex_text libc_sample loc_start (''yes'' @ DQUOTE # ''abc''))))
     = Error SyntaxError"
  by code_simp

text \<open>
  Claim C6, as amended. The keyword table is sorted by \<^verbatim>\<open>strcmp\<close> on the keyword
  texts; every keyword of the table, lexed alone, yields its token; and every
  other text over \<^verbatim>\<open>[a-z0-9-]\<close> that is not empty and does not begin with a
  digit yields the syntax error.
\<close>

theorem keyword_lookup:
  "sorted_by_text keywords_table
   \<and> (\<forall>(kw, tok) \<in> set keywords_table. fst (lex_text libc loc kw) = Token tok)
   \<and> (str \<noteq> [] \<and> (\<forall>c \<in> set str. is_keyword_char c) \<and> \<not> is_digit (hd str)
        \<and> str \<notin> fst ` set keywords_table
      \<longrightarrow> fst (lex_text libc loc str) = Error SyntaxError)"
proof (intro conjI impI)
  show "sorted_by_text keywords_table" by (rule keywords_sorted)
next
  show "\<forall>(kw, tok) \<in> set keywords_table. fst (lex_text libc loc kw) = Token tok"
  proof (clarify)
    fix kw tok
    assume m: "(kw, tok) \<in> set keywords_table"
    with keywords_shape have s: "kw \<noteq> []" "\<forall>c \<in> set kw. is_keyword_char c" "is_lower (hd kw)"
      by force+
    from m keywords_distinct have "map_of keywords_table kw = Some tok"
      by (rule map_of_is_SomeI [rotated])
    with lex_text_keyword_char [OF s, of libc loc] show "fst (lex_text libc loc kw) = Token tok"
      by simp
  qed
next
  assume a: "str \<noteq> [] \<and> (\<forall>c \<in> set str. is_keyword_char c) \<and> \<not> is_digit (hd str)
        \<and> str \<notin> fst ` set keywords_table"
  then obtain c cs where tx: "str = c # cs" by (cases str) simp_all
  from a have none: "map_of keywords_table str = None"
    by (simp add: map_of_eq_None_iff)
  from a tx have "is_lower c \<or> c = CHR ''-''"
    by (auto simp: is_keyword_char_def)
  then show "fst (lex_text libc loc str) = Error SyntaxError"
  proof
    assume "is_lower c"
    with a tx none lex_text_keyword_char [of str libc loc] show ?thesis by simp
  next
    assume m: "c = CHR ''-''"
    from fastd_lex_init_positioned [of "stream_of str"] tx m
    have i: "positioned (fastd_lex_init (stream_of str))"
      "rest_input (fastd_lex_init (stream_of str)) = CHR ''-'' # cs"
      by (simp_all add: stream_of_def)
    from fastd_lex_minus [OF i] show ?thesis
      by (simp add: lex_text_def)
  qed
qed

theorem keyword_lookup_witness:
  "(''yes'', TOK_YES) \<in> set keywords_table
   \<and> fst (lex_text libc_sample loc_start ''yes'') = Token TOK_YES
   \<and> is_keyword_char (CHR ''-'') \<and> map_of keywords_table ''pre-down'' = None
   \<and> fst (lex_text libc_sample loc_start ''pre-down'') = Error SyntaxError"
proof -
  have y: "(''yes'', TOK_YES) \<in> set keywords_table"
    by (simp add: keywords_table_def)
  have h: "''pre-down'' \<noteq> [] \<and> (\<forall>c \<in> set ''pre-down''. is_keyword_char c)
      \<and> \<not> is_digit (hd ''pre-down'') \<and> ''pre-down'' \<notin> fst ` set keywords_table"
    by (simp add: keywords_table_def is_keyword_char_def is_digit_def is_lower_def)
  then have n: "is_keyword_char (CHR ''-'') \<and> map_of keywords_table ''pre-down'' = None"
    by (simp add: map_of_eq_None_iff)
  note k = keyword_lookup [of libc_sample loc_start "''pre-down''"]
  from k y have "fst (lex_text libc_sample loc_start ''yes'') = Token TOK_YES"
    by blast
  with k y h n show ?thesis by blast
qed

text \<open>
  Claim C6 as stated fails for the texts that begin with a digit: the text
  \<^verbatim>\<open>7\<close> is in the class \<^verbatim>\<open>[a-z0-9-]+\<close> and is no keyword, and it is lexed as the
  number 7.
\<close>

theorem digit_text_is_not_syntax_error:
  "is_keyword_char (CHR ''7'') \<and> map_of keywords_table ''7'' = None
   \<and> fst (lex_text libc_sample loc_start ''7'') = Token (TOK_UINT 7)"
  by code_simp

text \<open>
  Claim C7. The window invariant \<open>start \<le> start + tok_len \<le> end \<le> capacity\<close> holds
  after \<^verbatim>\<open>fastd_lex_init\<close>, and \<^verbatim>\<open>advance\<close>, \<^verbatim>\<open>next\<close> (looking ahead or
  committing), \<^verbatim>\<open>consume\<close> and every complete token pull preserve it.
\<close>

theorem window_invariant:
  "window_inv (fastd_lex_init f)
   \<and> (window_inv lx \<longrightarrow> window_inv (snd (advance lx)))
   \<and> (window_inv (snd s) \<longrightarrow> window_inv (snd (snd (lex_next s move))))
   \<and> (window_inv lx \<longrightarrow> window_inv (consume lx ns))
   \<and> (window_inv (snd s) \<longrightarrow> window_inv (snd (snd (fastd_lex libc s))))"
  by (simp add: fastd_lex_init_inv advance_inv lex_next_inv consume_inv fastd_lex_inv)

theorem window_invariant_witness:
  "window_inv (fastd_lex_init (stream_of ''key;''))
   \<and> window_inv (snd (advance (fastd_lex_init (stream_of ''key;''))))
   \<and> window_inv (snd (snd (lex_next (loc_start, fastd_lex_init (stream_of ''key;'')) False)))
   \<and> window_inv (consume (fastd_lex_init (stream_of ''key;'')) True)
   \<and> window_inv (snd (snd (fastd_lex libc_sample (loc_start, fastd_lex_init (stream_of ''key;'')))))"
  using window_invariant [of "stream_of ''key;''" "fastd_lex_init (stream_of ''key;'')"
      "(loc_start, fastd_lex_init (stream_of ''key;''))" False True libc_sample]
  by simp

text \<open>
  Claim C8. Control passes from the digit scan of \<^verbatim>\<open>parse_number\<close> to
  \<^verbatim>\<open>parse_ipv4_address\<close> exactly when \<^verbatim>\<open>parse_number\<close> was entered with
  \<^verbatim>\<open>needspace\<close> clear (with the flag set it returns the syntax error before it
  scans) and the scan met a dot. In every such state the flag is still clear
  when the sub-scanner starts, and the sub-scanner returns an address or an
  invalid address, never the syntax error of a separator check.
\<close>

theorem ipv4_path_no_needspace_error:
  "(needspace (snd s) \<longrightarrow> parse_number libc s = (Error SyntaxError, s))
   \<and> (\<not> needspace (snd s) \<and> fst (number_loop s) \<longrightarrow>
        parse_number libc s = parse_ipv4_address libc (snd (number_loop s))
        \<and> \<not> needspace (snd (snd (number_loop s)))
        \<and> fst (parse_ipv4_address libc (snd (number_loop s))) \<noteq> Error SyntaxError
        \<and> fst (parse_number libc s) \<noteq> Error SyntaxError)"
proof (intro conjI impI)
  assume "needspace (snd s)"
  then show "parse_number libc s = (Error SyntaxError, s)"
    by (simp add: parse_number_def)
next
  assume a: "\<not> needspace (snd s) \<and> fst (number_loop s)"
  obtain dot s1 where nl: "number_loop s = (dot, s1)"
    by (cases "number_loop s")
  with a show e: "parse_number libc s = parse_ipv4_address libc (snd (number_loop s))"
    by (simp add: parse_number_def)
  from a show n: "\<not> needspace (snd (snd (number_loop s)))"
    by (simp add: number_loop_needspace)
  then show i: "fst (parse_ipv4_address libc (snd (number_loop s))) \<noteq> Error SyntaxError"
    by (simp add: parse_ipv4_address_def Let_def split: option.splits)
  with e show "fst (parse_number libc s) \<noteq> Error SyntaxError"
    by simp
qed

theorem ipv4_path_no_needspace_error_witness:
  "fst (number_loop (loc_start, fastd_lex_init (stream_of ''1.2.3.4;'')))
   \<and> parse_number libc_sample (loc_start, fastd_lex_init (stream_of ''1.2.3.4;''))
     = parse_ipv4_address libc_sample
         (snd (number_loop (loc_start, fastd_lex_init (stream_of ''1.2.3.4;''))))
   \<and> fst (parse_number libc_sample (loc_start, fastd_lex_init (stream_of ''1.2.3.4;'')))
     = Token (TOK_ADDR4 [1, 2, 3, 4])
   \<and> parse_number libc_sample
       (snd (lex_text libc_sample loc_start ([DQUOTE, DQUOTE] @ ''1.2.3.4;'')))
     = (Error SyntaxError, snd (lex_text libc_sample loc_start ([DQUOTE, DQUOTE] @ ''1.2.3.4;'')))"
proof -
  let ?lx = "fastd_lex_init (stream_of ''1.2.3.4;'')"
  let ?s2 = "snd (lex_text libc_sample loc_start ([DQUOTE, DQUOTE] @ ''1.2.3.4;''))"
  have h: "\<not> needspace (snd (loc_start, ?lx)) \<and> fst (number_loop (loc_start, ?lx))"
    by code_simp
  have v: "fst (parse_number libc_sample (loc_start, ?lx)) = Token (TOK_ADDR4 [1, 2, 3, 4])"
    by code_simp
  have n: "needspace (snd ?s2)"
    by code_simp
  show ?thesis
    using h v n ipv4_path_no_needspace_error [of "(loc_start, ?lx)" libc_sample]
      ipv4_path_no_needspace_error [of ?s2 libc_sample]
    by blast
qed

text \<open>
  Claim C9. In a state with \<^verbatim>\<open>needspace\<close> set whose current byte starts a string,
  an IPv6 address, a number or a keyword, the pull returns the syntax error and
  leaves the lexer as it was: the window indices, the buffer, the stream and
  \<^verbatim>\<open>needspace\<close>. The line and column counters \<^verbatim>\<open>last_line\<close> and
  \<^verbatim>\<open>last_column\<close> keep their values; the start of the span is set from them,
  as at the beginning of every pull.
\<close>

theorem needspace_rejection_atomic:
  assumes "needspace (snd s)" "start (snd s) < end_pos (snd s)"
    "start (snd s) + tok_len (snd s) < sizeof_buffer"
    "cur s = DQUOTE \<or> cur s = CHR ''['' \<or> is_digit (cur s) \<or> is_lower (cur s)"
  shows "fastd_lex libc s
         = (Error SyntaxError,
            (fst s)\<lparr>first_line := last_line (fst s), first_column := last_column (fst s) + 1\<rparr>,
            snd s)"
proof -
  let ?s0 = "((fst s)\<lparr>first_line := last_line (fst s),
                        first_column := last_column (fst s) + 1\<rparr>, snd s)"
  have c: "cur ?s0 = cur s" by (simp add: cur_def)
  note w = word_start_not_separator [OF assms(4)]
  from assms(1-3) w show ?thesis
    by (simp add: fastd_lex.simps [of libc s] Let_def c parse_string_def
        parse_ipv6_address_def parse_number_def parse_keyword_def del: insert_iff)
qed

theorem needspace_rejection_atomic_witness:
  "needspace (snd (snd (lex_text libc_sample loc_start (''yes'' @ [DQUOTE, DQUOTE]))))
   \<and> cur (snd (lex_text libc_sample loc_start (''yes'' @ [DQUOTE, DQUOTE]))) = DQUOTE
   \<and> fastd_lex libc_sample (snd (lex_text libc_sample loc_start (''yes'' @ [DQUOTE, DQUOTE])))
     = (Error SyntaxError,
        (fst (snd (lex_text libc_sample loc_start (''yes'' @ [DQUOTE, DQUOTE]))))
          \<lparr>first_line := last_line (fst (snd (lex_text libc_sample loc_start (''yes'' @ [DQUOTE, DQUOTE])))),
           first_column := last_column (fst (snd (lex_text libc_sample loc_start (''yes'' @ [DQUOTE, DQUOTE])))) + 1\<rparr>,
        snd (snd (lex_text libc_sample loc_start (''yes'' @ [DQUOTE, DQUOTE]))))"
proof -
  let ?s = "snd (lex_text libc_sample loc_start (''yes'' @ [DQUOTE, DQUOTE]))"
  have h: "needspace (snd ?s) \<and> start (snd ?s) < end_pos (snd ?s)
      \<and> start (snd ?s) + tok_len (snd ?s) < sizeof_buffer \<and> cur ?s = DQUOTE"
    unfolding lex_text_def stream_of_def by code_simp
  then have "cur ?s = DQUOTE \<or> cur ?s = CHR ''['' \<or> is_digit (cur ?s) \<or> is_lower (cur ?s)"
    by simp
  with h show ?thesis
    using needspace_rejection_atomic [of ?s libc_sample] by simp
qed

text \<open>
  Claim C10. When the current byte is a slash, it is the last byte of the
  window and the stream has no more bytes, the pull returns the syntax error,
  whatever the error state of the stream; so does the first pull on the input
  that consists of a slash.
\<close>

theorem slash_at_end_is_syntax_error:
  "(start (snd s) < end_pos (snd s) \<and> start (snd s) + tok_len (snd s) < sizeof_buffer
      \<and> cur s = CHR ''/'' \<and> end_pos (snd s) \<le> start (snd s) + tok_len (snd s) + 1
      \<and> pending (infile (snd s)) = []
    \<longrightarrow> fst (fastd_lex libc s) = Error SyntaxError)
   \<and> (pending f = ''/'' \<longrightarrow> fst (fastd_lex libc (loc, fastd_lex_init f)) = Error SyntaxError)"
proof (intro conjI impI)
  assume a: "start (snd s) < end_pos (snd s) \<and> start (snd s) + tok_len (snd s) < sizeof_buffer
      \<and> cur s = CHR ''/'' \<and> end_pos (snd s) \<le> start (snd s) + tok_len (snd s) + 1
      \<and> pending (infile (snd s)) = []"
  let ?s0 = "((fst s)\<lparr>first_line := last_line (fst s),
                        first_column := last_column (fst s) + 1\<rparr>, snd s)"
  have c: "cur ?s0 = cur s" by (simp add: cur_def)
  obtain ok s1 where n: "lex_next ?s0 True = (ok, s1)"
    by (cases "lex_next ?s0 True")
  have "\<not> fst (lex_next ?s0 True)"
    using a
    by (auto simp: lex_next_def Let_def advance_def compact_def fread_def sizeof_buffer_def
        split: prod.splits)
  with n have "\<not> ok" by simp
  with a c show "fst (fastd_lex libc s) = Error SyntaxError"
    by (simp add: fastd_lex.simps [of libc s] Let_def NEWLINE_def n)
next
  assume p: "pending f = ''/''"
  let ?loc = "loc\<lparr>first_line := last_line loc, first_column := last_column loc + 1\<rparr>"
  note i = fastd_lex_init_positioned [of f]
  from i p have fr: "positioned (fastd_lex_init f)" and r: "rest_input (fastd_lex_init f) = [CHR ''/'']"
    by simp_all
  note c = positioned_current [OF fr r]
  obtain ok s1 where n: "lex_next (?loc, fastd_lex_init f) True = (ok, s1)"
    by (cases "lex_next (?loc, fastd_lex_init f) True")
  with lex_next_move_all [OF fr r, of ?loc] have "\<not> ok" by simp
  with c show "fst (fastd_lex libc (loc, fastd_lex_init f)) = Error SyntaxError"
    by (simp add: fastd_lex.simps [of libc "(loc, fastd_lex_init f)"] Let_def NEWLINE_def cur_def n)
qed

theorem slash_at_end_is_syntax_error_witness:
  "pending \<lparr>pending = ''/'', fails = True, ferror = False\<rparr> = ''/''
   \<and> fst (lex_text libc_sample loc_start ''/'') = Error SyntaxError
   \<and> fst (fastd_lex libc_sample
        (loc_start, fastd_lex_init \<lparr>pending = ''/'', fails = True, ferror = False\<rparr>))
     = Error SyntaxError"
proof -
  let ?s = "(loc_start, fastd_lex_init (stream_of ''/''))"
  have h: "start (snd ?s) < end_pos (snd ?s) \<and> start (snd ?s) + tok_len (snd ?s) < sizeof_buffer
      \<and> cur ?s = CHR ''/'' \<and> end_pos (snd ?s) \<le> start (snd ?s) + tok_len (snd ?s) + 1
      \<and> pending (infile (snd ?s)) = []"
    unfolding stream_of_def loc_start_def by code_simp
  show ?thesis
    using h slash_at_end_is_syntax_error [of ?s libc_sample
        "\<lparr>pending = ''/'', fails = True, ferror = False\<rparr>" loc_start]
    by (simp add: lex_text_def)
qed

end
